theory Spec2Isabelle
  imports Complex_Main
begin

section \<open>Outcome selector\<close>

text \<open>
  One entry of \<^verbatim>\<open>SPIN_OUTCOMES\<close>: \<^verbatim>\<open>{ prize: "$100", weight: 0.05, cents: 10000 }\<close>.
  The type of the weights is a parameter: the walk below only adds weights and compares
  the running sum with the random draw, so what is proved about it holds for every
  addition and comparison, JavaScript's rounding ones included. The configured tables
  carry their decimal weights as exact reals.
\<close>

record 'w outcome =
  prize :: string
  weight :: 'w
  cents :: int

text \<open>The table of \<^verbatim>\<open>src/server.js\<close>, lines 35 to 43.\<close>

definition SPIN_OUTCOMES :: "real outcome list" where
  "SPIN_OUTCOMES =
    [ \<lparr>prize = ''$100'', weight = 0.05, cents = 10000\<rparr>,
      \<lparr>prize = ''$75'', weight = 0.10, cents = 7500\<rparr>,
      \<lparr>prize = ''$50'', weight = 0.15, cents = 5000\<rparr>,
      \<lparr>prize = ''$25'', weight = 0.20, cents = 2500\<rparr>,
      \<lparr>prize = ''$10'', weight = 0.20, cents = 1000\<rparr>,
      \<lparr>prize = ''$5'', weight = 0.20, cents = 500\<rparr>,
      \<lparr>prize = ''Try Again'', weight = 0.10, cents = 0\<rparr> ]"

text \<open>The table of the second server variant, \<^verbatim>\<open>src/unnamed/part_000\<close>, lines 40 to 48.\<close>

definition SPIN_OUTCOMES_part_000 :: "real outcome list" where
  "SPIN_OUTCOMES_part_000 =
    [ \<lparr>prize = ''$100'', weight = 0.05, cents = 10000\<rparr>,
      \<lparr>prize = ''$75'', weight = 0.10, cents = 7500\<rparr>,
      \<lparr>prize = ''$50'', weight = 0.15, cents = 5000\<rparr>,
      \<lparr>prize = ''$25'', weight = 0.20, cents = 2500\<rparr>,
      \<lparr>prize = ''$10'', weight = 0.20, cents = 1000\<rparr>,
      \<lparr>prize = ''$5'', weight = 0.20, cents = 500\<rparr>,
      \<lparr>prize = ''Try Again'', weight = 0.10, cents = 0\<rparr> ]"

text \<open>
  The \<^verbatim>\<open>for (const outcome of SPIN_OUTCOMES)\<close> loop of \<^verbatim>\<open>selectWeightedOutcome\<close>:
  \<open>Some\<close> is the \<^verbatim>\<open>return outcome\<close> inside the loop, \<open>None\<close> is falling out of it.
\<close>

fun walk :: "'w::{plus,ord} \<Rightarrow> 'w \<Rightarrow> 'w outcome list \<Rightarrow> 'w outcome option" where
  "walk random cumulativeWeight [] = None"
| "walk random cumulativeWeight (outcome # rest) =
     (let cumulativeWeight = cumulativeWeight + weight outcome
      in if random \<le> cumulativeWeight then Some outcome
         else walk random cumulativeWeight rest)"

text \<open>
  \<^verbatim>\<open>selectWeightedOutcome\<close> over a given table, with the value of \<^verbatim>\<open>Math.random()\<close>
  as an argument. After the loop the source returns
  \<^verbatim>\<open>SPIN_OUTCOMES[SPIN_OUTCOMES.length - 1]\<close>, which is \<^verbatim>\<open>undefined\<close> (here \<open>None\<close>)
  when the table is empty.
\<close>

definition selectWeightedOutcome_from ::
  "'w::{zero,plus,ord} outcome list \<Rightarrow> 'w \<Rightarrow> 'w outcome option" where
  "selectWeightedOutcome_from table random =
     (case walk random 0 table of
        Some outcome \<Rightarrow> Some outcome
      | None \<Rightarrow> if table = [] then None else Some (table ! (length table - 1)))"

definition selectWeightedOutcome :: "real \<Rightarrow> real outcome option" where
  "selectWeightedOutcome random = selectWeightedOutcome_from SPIN_OUTCOMES random"

text \<open>
  The running sum the loop holds after it has added the weight of tier \<open>i\<close>, built
  in the order the loop adds.
\<close>

definition cumulative :: "'w::{zero,plus} outcome list \<Rightarrow> nat \<Rightarrow> 'w" where
  "cumulative table i = foldl (+) 0 (map weight (take (Suc i) table))"

section \<open>Code generator\<close>

text \<open>The regular expression class \<^verbatim>\<open>\d\<close>: the ASCII digits.\<close>

definition is_digit :: "char \<Rightarrow> bool" where
  "is_digit c = (c \<in> set ''0123456789'')"

definition digit_char :: "nat \<Rightarrow> char" where
  "digit_char d = ''0123456789'' ! (d mod 10)"

text \<open>\<^verbatim>\<open>Number.prototype.toString\<close> on a whole number: its decimal digits.\<close>

fun digits :: "nat \<Rightarrow> string" where
  "digits n = (if n < 10 then [digit_char n] else digits (n div 10) @ [digit_char (n mod 10)])"

declare digits.simps [simp del]

definition toString :: "int \<Rightarrow> string" where
  "toString n = (if n < 0 then CHR ''-'' # digits (nat (- n)) else digits (nat n))"

text \<open>
  \<^verbatim>\<open>Math.floor(10000 + Math.random() * 90000).toString()\<close>, with the value of
  \<^verbatim>\<open>Math.random()\<close> as an argument; \<^verbatim>\<open>Math.random()\<close> returns a number in \<open>[0, 1)\<close>.
  The product and the sum are exact here, where the source rounds each to a double;
  the rounding can move a code to its neighbour, inside 10000 to 99999. Every code of
  that range is the image of some draw, here as in the source, so a statement made for
  all draws holds for every sequence of candidates the source can produce; the
  theorems below are made for all draws, and the draws of the examples, 0 and 0.5, give
  10000 and 55000 with or without rounding.
\<close>

definition generateSpinCode :: "real \<Rightarrow> string" where
  "generateSpinCode random = toString \<lfloor>10000 + random * 90000\<rfloor>"

section \<open>Persistent store\<close>

text \<open>
  The two tables of \<^verbatim>\<open>initializeDatabase\<close>. A row of \<^verbatim>\<open>spin_codes\<close>
  (\<^verbatim>\<open>id SERIAL PRIMARY KEY, code VARCHAR(5) UNIQUE NOT NULL, status VARCHAR(20) DEFAULT
  'unused', created_at TIMESTAMP DEFAULT NOW(), used_at TIMESTAMP\<close>) and a row of
  \<^verbatim>\<open>spin_results\<close> (\<^verbatim>\<open>id SERIAL PRIMARY KEY, code_id INT REFERENCES spin_codes(id),
  outcome, prize_cents, odds, created_at\<close>); the field prefixes are the aliases
  \<^verbatim>\<open>sc\<close> and \<^verbatim>\<open>sr\<close> of the source's own queries.
\<close>

type_synonym timestamp = nat

record spin_code =
  sc_id :: nat
  sc_code :: string
  sc_status :: string
  sc_created_at :: timestamp
  sc_used_at :: "timestamp option"

record spin_result =
  sr_id :: nat
  sr_code_id :: nat
  sr_outcome :: string
  sr_prize_cents :: int
  sr_odds :: real
  sr_created_at :: timestamp

record tables =
  spin_codes :: "spin_code list"
  spin_results :: "spin_result list"

text \<open>
  The database: the committed rows and the two \<^verbatim>\<open>SERIAL\<close> sequences. A sequence
  holds the last value it gave out and is not part of any transaction: a value taken by
  an insert that fails or is rolled back is not given out again. \<^verbatim>\<open>SERIAL\<close> is a
  four-byte integer: past \<open>SERIAL_max\<close> no insert gets an id.
\<close>

definition SERIAL_max :: nat where
  "SERIAL_max = 2147483647"

record store =
  committed :: tables
  spin_codes_id_seq :: nat
  spin_results_id_seq :: nat

definition initializeDatabase :: store where
  "initializeDatabase =
     \<lparr>committed = \<lparr>spin_codes = [], spin_results = []\<rparr>,
      spin_codes_id_seq = 0, spin_results_id_seq = 0\<rparr>"

text \<open>
  What a rejected \<^verbatim>\<open>await\<close> throws: a unique violation (PostgreSQL code
  \<^verbatim>\<open>23505\<close>), a foreign-key violation, the error of an insert whose \<^verbatim>\<open>SERIAL\<close> id
  would pass the four-byte limit, any other failure of the store (connection lost,
  timeout), or the \<^verbatim>\<open>TypeError\<close> of reading a property of \<^verbatim>\<open>undefined\<close>.
\<close>

datatype js_error =
  UniqueViolation | ForeignKeyViolation | SequenceLimit | StorageFailure | TypeError

text \<open>The calls a handler makes on the store, in the order it makes them.\<close>

datatype statement =
    CONNECT
  | BEGIN
  | COMMIT
  | ROLLBACK
  | SELECT_spin_codes string
  | SELECT_spin_codes_FOR_UPDATE string
  | UPDATE_spin_codes string nat
  | INSERT_spin_results nat
  | INSERT_spin_codes string

text \<open>
  One request's view of the store: the database, the working copy of the tables while
  a transaction is open, the fate of the store calls still to come (\<open>True\<close>: that
  call fails with a storage failure and has no effect; past the end of the list every
  call goes through), and the calls made so far.
\<close>

record session =
  db :: store
  tx :: "tables option"
  pending :: "bool list"
  issued :: "statement list"

definition request :: "bool list \<Rightarrow> store \<Rightarrow> session" where
  "request faults st = \<lparr>db = st, tx = None, pending = faults, issued = []\<rparr>"

definition fault_now :: "bool list \<Rightarrow> bool" where
  "fault_now faults = (case faults of [] \<Rightarrow> False | f # _ \<Rightarrow> f)"

text \<open>Sending one call: it is recorded, and the head of \<open>pending\<close> says whether it fails.\<close>

definition send :: "statement \<Rightarrow> session \<Rightarrow> bool \<times> session" where
  "send q s = (fault_now (pending s), s\<lparr>pending := tl (pending s), issued := issued s @ [q]\<rparr>)"

text \<open>
  Rows are read from the working copy inside a transaction and from the committed
  tables outside; a write outside a transaction commits at once (\<^verbatim>\<open>pool.query\<close>).
\<close>

definition visible :: "session \<Rightarrow> tables" where
  "visible s = (case tx s of Some t \<Rightarrow> t | None \<Rightarrow> committed (db s))"

definition put_tables :: "tables \<Rightarrow> session \<Rightarrow> session" where
  "put_tables t s = (case tx s of Some _ \<Rightarrow> s\<lparr>tx := Some t\<rparr>
                | None \<Rightarrow> s\<lparr>db := (db s)\<lparr>committed := t\<rparr>\<rparr>)"

definition query_BEGIN :: "session \<Rightarrow> (js_error + unit) \<times> session" where
  "query_BEGIN s =
     (case send BEGIN s of
        (True, s') \<Rightarrow> (Inl StorageFailure, s')
      | (False, s') \<Rightarrow> (Inr (), s'\<lparr>tx := Some (visible s')\<rparr>))"

definition query_ROLLBACK :: "session \<Rightarrow> (js_error + unit) \<times> session" where
  "query_ROLLBACK s =
     (case send ROLLBACK s of
        (True, s') \<Rightarrow> (Inl StorageFailure, s')
      | (False, s') \<Rightarrow> (Inr (), s'\<lparr>tx := None\<rparr>))"

text \<open>A \<^verbatim>\<open>COMMIT\<close> that fails commits nothing.\<close>

definition query_COMMIT :: "session \<Rightarrow> (js_error + unit) \<times> session" where
  "query_COMMIT s =
     (case send COMMIT s of
        (True, s') \<Rightarrow> (Inl StorageFailure, s')
      | (False, s') \<Rightarrow> (Inr (), s'\<lparr>db := (db s')\<lparr>committed := visible s'\<rparr>, tx := None\<rparr>))"

text \<open>\<^verbatim>\<open>SELECT id, code, status FROM spin_codes WHERE code = $1\<close>\<close>

definition query_SELECT_spin_codes :: "string \<Rightarrow> session \<Rightarrow> (js_error + spin_code list) \<times> session" where
  "query_SELECT_spin_codes code s =
     (case send (SELECT_spin_codes code) s of
        (True, s') \<Rightarrow> (Inl StorageFailure, s')
      | (False, s') \<Rightarrow> (Inr (filter (\<lambda>row. sc_code row = code) (spin_codes (visible s'))), s'))"

text \<open>
  \<^verbatim>\<open>SELECT id, code, status FROM spin_codes WHERE code = $1 FOR UPDATE\<close>: the same rows;
  the row lock it takes has no effect on a single session.
\<close>

definition query_SELECT_spin_codes_FOR_UPDATE ::
  "string \<Rightarrow> session \<Rightarrow> (js_error + spin_code list) \<times> session" where
  "query_SELECT_spin_codes_FOR_UPDATE code s =
     (case send (SELECT_spin_codes_FOR_UPDATE code) s of
        (True, s') \<Rightarrow> (Inl StorageFailure, s')
      | (False, s') \<Rightarrow> (Inr (filter (\<lambda>row. sc_code row = code) (spin_codes (visible s'))), s'))"

text \<open>\<^verbatim>\<open>UPDATE spin_codes SET status = $1, used_at = NOW() WHERE id = $2\<close>\<close>

definition query_UPDATE_spin_codes ::
  "string \<Rightarrow> nat \<Rightarrow> timestamp \<Rightarrow> session \<Rightarrow> (js_error + unit) \<times> session" where
  "query_UPDATE_spin_codes status ident now s =
     (case send (UPDATE_spin_codes status ident) s of
        (True, s') \<Rightarrow> (Inl StorageFailure, s')
      | (False, s') \<Rightarrow>
          (Inr (),
           put_tables ((visible s')\<lparr>spin_codes :=
                     map (\<lambda>row. if sc_id row = ident
                                then row\<lparr>sc_status := status, sc_used_at := Some now\<rparr>
                                else row)
                         (spin_codes (visible s'))\<rparr>) s'))"

text \<open>
  \<^verbatim>\<open>INSERT INTO spin_results (code_id, outcome, prize_cents, odds) VALUES ($1, $2, $3, $4)
  RETURNING id, outcome, prize_cents, odds, created_at\<close>
\<close>

definition query_INSERT_spin_results ::
  "nat \<Rightarrow> string \<Rightarrow> int \<Rightarrow> real \<Rightarrow> timestamp \<Rightarrow> session \<Rightarrow> (js_error + spin_result) \<times> session" where
  "query_INSERT_spin_results code_id outcome prize_cents odds now s =
     (case send (INSERT_spin_results code_id) s of
        (True, s') \<Rightarrow> (Inl StorageFailure, s')
      | (False, s') \<Rightarrow>
          if SERIAL_max \<le> spin_results_id_seq (db s') then (Inl SequenceLimit, s')
          else
            (let ident = Suc (spin_results_id_seq (db s'));
                 s'' = s'\<lparr>db := (db s')\<lparr>spin_results_id_seq := ident\<rparr>\<rparr>;
                 row = \<lparr>sr_id = ident, sr_code_id = code_id, sr_outcome = outcome,
                        sr_prize_cents = prize_cents, sr_odds = odds, sr_created_at = now\<rparr>
             in if code_id \<notin> set (map sc_id (spin_codes (visible s'')))
                then (Inl ForeignKeyViolation, s'')
                else (Inr row,
                      put_tables ((visible s'')\<lparr>spin_results := spin_results (visible s'') @ [row]\<rparr>) s'')))"

text \<open>\<^verbatim>\<open>INSERT INTO spin_codes (code) VALUES ($1) RETURNING id, code, created_at\<close>\<close>

definition query_INSERT_spin_codes ::
  "string \<Rightarrow> timestamp \<Rightarrow> session \<Rightarrow> (js_error + spin_code) \<times> session" where
  "query_INSERT_spin_codes code now s =
     (case send (INSERT_spin_codes code) s of
        (True, s') \<Rightarrow> (Inl StorageFailure, s')
      | (False, s') \<Rightarrow>
          if SERIAL_max \<le> spin_codes_id_seq (db s') then (Inl SequenceLimit, s')
          else
            (let ident = Suc (spin_codes_id_seq (db s'));
                 s'' = s'\<lparr>db := (db s')\<lparr>spin_codes_id_seq := ident\<rparr>\<rparr>;
                 row = \<lparr>sc_id = ident, sc_code = code, sc_status = ''unused'',
                        sc_created_at = now, sc_used_at = None\<rparr>
             in if code \<in> set (map sc_code (spin_codes (visible s'')))
                then (Inl UniqueViolation, s'')
                else (Inr row,
                      put_tables ((visible s'')\<lparr>spin_codes := spin_codes (visible s'') @ [row]\<rparr>) s'')))"

section \<open>Request handlers\<close>

text \<open>
  What a handler answers: \<^verbatim>\<open>res.json(body)\<close>, \<^verbatim>\<open>res.status(n).json({ error: msg })\<close>, or
  nothing at all when an exception leaves the handler.
\<close>

datatype 'a response = Json 'a | Failure nat string | NoResponse

text \<open>
  \<^verbatim>\<open>await\<close> inside a \<^verbatim>\<open>try\<close> block: a rejected call (\<open>Inl\<close>) skips the rest of
  the block.
\<close>

definition await ::
  "('e + 'a) \<times> 's \<Rightarrow> ('a \<Rightarrow> 's \<Rightarrow> ('e + 'b) \<times> 's) \<Rightarrow> ('e + 'b) \<times> 's" where
  "await m f = (case m of (Inl e, s) \<Rightarrow> (Inl e, s) | (Inr a, s) \<Rightarrow> f a s)"

text \<open>\<^verbatim>\<open>/^\d{5}$/.test(code)\<close>\<close>

definition test_5_digits :: "string \<Rightarrow> bool" where
  "test_5_digits code = (length code = 5 \<and> list_all is_digit code)"

text \<open>
  \<^verbatim>\<open>!code || code.length !== 5 || !/^\d{5}$/.test(code)\<close>. The field \<^verbatim>\<open>code\<close> of the
  request body is a string, or absent (\<open>None\<close>, JavaScript's \<^verbatim>\<open>undefined\<close>).
\<close>

definition invalid_code_format :: "string option \<Rightarrow> bool" where
  "invalid_code_format code =
     (case code of
        None \<Rightarrow> True
      | Some c \<Rightarrow> c = [] \<or> length c \<noteq> 5 \<or> \<not> test_5_digits c)"

text \<open>\<^verbatim>\<open>POST /spin/verify\<close>; the queries go through \<^verbatim>\<open>pool.query\<close>, outside any transaction.\<close>

definition verify :: "string option \<Rightarrow> session \<Rightarrow> string response \<times> session" where
  "verify code s =
     (if invalid_code_format code then (Failure 400 ''Invalid code format'', s)
      else
        (case query_SELECT_spin_codes (the code) s of
           (Inl error, s') \<Rightarrow> (Failure 500 ''Verification failed'', s')
         | (Inr rows, s') \<Rightarrow>
             if length rows = 0 then (Failure 404 ''Code not found'', s')
             else
               (let codeData = rows ! 0
                in if sc_status codeData = ''used''
                   then (Failure 400 ''Code already used'', s')
                   else (Json (sc_code codeData), s'))))"

text \<open>
  \<^verbatim>\<open>await client.query('ROLLBACK'); return res.status(n).json({ error: msg })\<close> inside the
  \<^verbatim>\<open>try\<close> block of \<^verbatim>\<open>POST /spin/play\<close>.
\<close>

definition rollback_and_answer ::
  "nat \<Rightarrow> string \<Rightarrow> session \<Rightarrow> (js_error + spin_result response) \<times> session" where
  "rollback_and_answer n msg s = await (query_ROLLBACK s) (\<lambda>_ s'. (Inr (Failure n msg), s'))"

text \<open>The \<^verbatim>\<open>try\<close> block of \<^verbatim>\<open>POST /spin/play\<close>.\<close>

definition play_try ::
  "string option \<Rightarrow> real \<Rightarrow> timestamp \<Rightarrow> session \<Rightarrow> (js_error + spin_result response) \<times> session" where
  "play_try code random now s =
     await (query_BEGIN s) (\<lambda>_ s.
       if invalid_code_format code then rollback_and_answer 400 ''Invalid code format'' s
       else
         await (query_SELECT_spin_codes_FOR_UPDATE (the code) s) (\<lambda>rows s.
           if length rows = 0 then rollback_and_answer 404 ''Code not found'' s
           else
             (let codeData = rows ! 0
              in if sc_status codeData = ''used''
                 then rollback_and_answer 400 ''Code already used'' s
                 else
                   (let outcome = selectWeightedOutcome random
                    in await (query_UPDATE_spin_codes ''used'' (sc_id codeData) now s) (\<lambda>_ s.
                         (case outcome of
                            None \<Rightarrow> (Inl TypeError, s)
                          | Some outcome \<Rightarrow>
                              await (query_INSERT_spin_results (sc_id codeData) (prize outcome)
                                       (cents outcome) (weight outcome) now s) (\<lambda>spinResult s.
                                await (query_COMMIT s) (\<lambda>_ s.
                                  (Inr (Json spinResult), s)))))))))"

text \<open>
  \<^verbatim>\<open>POST /spin/play\<close>. \<^verbatim>\<open>pool.connect()\<close> is outside the \<^verbatim>\<open>try\<close>; the \<^verbatim>\<open>catch\<close>
  block rolls back and answers 500, and an exception of its own \<^verbatim>\<open>ROLLBACK\<close> leaves
  the handler. \<^verbatim>\<open>client.release()\<close> gives the connection back; a transaction still
  open then (its \<^verbatim>\<open>ROLLBACK\<close> failed) is never committed.
\<close>

definition play :: "string option \<Rightarrow> real \<Rightarrow> timestamp \<Rightarrow> session \<Rightarrow> spin_result response \<times> session" where
  "play code random now s =
     (case send CONNECT s of
        (True, s) \<Rightarrow> (NoResponse, s)
      | (False, s) \<Rightarrow>
          (case (case play_try code random now s of
                   (Inr answer, s) \<Rightarrow> (answer, s)
                 | (Inl error, s) \<Rightarrow>
                     (case query_ROLLBACK s of
                        (Inl error', s) \<Rightarrow> (NoResponse, s)
                      | (Inr _, s) \<Rightarrow> (Failure 500 ''Spin failed'', s)))
           of (answer, s) \<Rightarrow> (answer, s\<lparr>tx := None\<rparr>)))"

text \<open>
  The loop of \<^verbatim>\<open>POST /admin/generate\<close>:
  \<^verbatim>\<open>for (let i = 0; i < Math.min(count, 100); i++)\<close>, with \<open>n\<close> the bound, \<open>k\<close> the
  number of candidates drawn so far, \<open>rnd k\<close> the value \<^verbatim>\<open>Math.random()\<close> returns
  next and \<open>now k\<close> the time of the next insert. On a unique violation the source
  runs \<^verbatim>\<open>i--; continue\<close> and the loop header then runs \<^verbatim>\<open>i++\<close>. Any other error
  leaves the loop (\<^verbatim>\<open>throw dbError\<close>). The loop counts no retries, so the recursion is
  not on any of its arguments; \<open>None\<close> would be a run that never returns.
\<close>

partial_function (option) generate_loop ::
  "(nat \<Rightarrow> real) \<Rightarrow> (nat \<Rightarrow> timestamp) \<Rightarrow> int \<Rightarrow> int \<Rightarrow> nat \<Rightarrow> spin_code list \<Rightarrow> session
     \<Rightarrow> ((js_error + spin_code list) \<times> session) option" where
  "generate_loop rnd now n i k codes s =
     (if i < n then
        (case query_INSERT_spin_codes (generateSpinCode (rnd k)) (now k) s of
           (Inr row, s') \<Rightarrow> generate_loop rnd now n (i + 1) (Suc k) (codes @ [row]) s'
         | (Inl dbError, s') \<Rightarrow>
             if dbError = UniqueViolation
             then generate_loop rnd now n (i - 1 + 1) (Suc k) codes s'
             else Some (Inl dbError, s'))
      else Some (Inr codes, s))"

text \<open>
  \<^verbatim>\<open>POST /admin/generate\<close>, with \<^verbatim>\<open>const { count = 1 } = req.body\<close>: the field
  \<^verbatim>\<open>count\<close> is a whole number, or absent.
\<close>

definition generate ::
  "int option \<Rightarrow> (nat \<Rightarrow> real) \<Rightarrow> (nat \<Rightarrow> timestamp) \<Rightarrow> session
     \<Rightarrow> (spin_code list response \<times> session) option" where
  "generate count rnd now s =
     (case generate_loop rnd now (min (case count of None \<Rightarrow> 1 | Some c \<Rightarrow> c) 100) 0 0 [] s of
        None \<Rightarrow> None
      | Some (Inr codes, s') \<Rightarrow> Some (Json codes, s')
      | Some (Inl error, s') \<Rightarrow> Some (Failure 500 ''Failed to generate codes'', s'))"

section \<open>Reachable stores\<close>

text \<open>
  One request served from start to end, by any of the three handlers, with any input,
  any fate of its store calls and any values of \<^verbatim>\<open>Math.random()\<close> in \<open>[0, 1)\<close>.
\<close>

inductive step :: "store \<Rightarrow> store \<Rightarrow> bool" where
  step_generate:
    "\<forall>k. 0 \<le> rnd k \<and> rnd k < 1 \<Longrightarrow>
     generate count rnd now (request faults st) = Some (answer, s') \<Longrightarrow> step st (db s')"
| step_verify:
    "verify code (request faults st) = (answer', s') \<Longrightarrow> step st (db s')"
| step_play:
    "0 \<le> random \<Longrightarrow> random < 1 \<Longrightarrow>
     play code random t (request faults st) = (answer'', s') \<Longrightarrow> step st (db s')"

inductive reachable :: "store \<Rightarrow> bool" where
  reachable_init: "reachable initializeDatabase"
| reachable_step: "reachable st \<Longrightarrow> step st st' \<Longrightarrow> reachable st'"

section \<open>Notions used in the statements\<close>

text \<open>
  A store for the examples: the one code \<^verbatim>\<open>10000\<close>, not yet used, as
  \<^verbatim>\<open>POST /admin/generate\<close> leaves it when \<^verbatim>\<open>Math.random()\<close> returns 0.
\<close>

abbreviation one_code_store :: store where
  "one_code_store \<equiv>
     \<lparr>committed = \<lparr>spin_codes = [\<lparr>sc_id = 1, sc_code = ''10000'', sc_status = ''unused'',
                                   sc_created_at = 0, sc_used_at = None\<rparr>],
                   spin_results = []\<rparr>,
      spin_codes_id_seq = 1, spin_results_id_seq = 0\<rparr>"

text \<open>
  The first row a \<^verbatim>\<open>SELECT ... WHERE code = v\<close> returns is marked used: what both
  handlers test before they answer "Code already used".
\<close>

definition redeemed :: "string \<Rightarrow> tables \<Rightarrow> bool" where
  "redeemed v t =
     (case filter (\<lambda>row. sc_code row = v) (spin_codes t) of
        [] \<Rightarrow> False
      | row # _ \<Rightarrow> sc_status row = ''used'')"

text \<open>The effect of the \<^verbatim>\<open>UPDATE\<close> of \<^verbatim>\<open>POST /spin/play\<close> on the rows of \<^verbatim>\<open>spin_codes\<close>.\<close>

definition mark_used :: "nat \<Rightarrow> timestamp \<Rightarrow> spin_code list \<Rightarrow> spin_code list" where
  "mark_used ident now codes =
     map (\<lambda>c. if sc_id c = ident then c\<lparr>sc_status := ''used'', sc_used_at := Some now\<rparr> else c) codes"

text \<open>
  The invariant of the store: the keys and the code values are unique, no code row has
  an id beyond the sequence, a code is used exactly when a result row refers to it, at
  most one result row refers to a code, and every result row refers to a code row.
\<close>

definition consistent :: "store \<Rightarrow> bool" where
  "consistent st =
     (let codes = spin_codes (committed st); results = spin_results (committed st)
      in distinct (map sc_id codes)
         \<and> distinct (map sc_code codes)
         \<and> distinct (map sr_code_id results)
         \<and> (\<forall>c\<in>set codes. sc_id c \<le> spin_codes_id_seq st)
         \<and> (\<forall>c\<in>set codes. (sc_status c = ''used'') = (sc_id c \<in> set (map sr_code_id results)))
         \<and> (\<forall>c\<in>set codes. sc_status c = ''unused'' \<or> sc_status c = ''used'')
         \<and> set (map sr_code_id results) \<subseteq> set (map sc_id codes))"

text \<open>The example store after the code \<^verbatim>\<open>10000\<close> has been played at time 7 with the draw 0.5.\<close>

abbreviation used_code_store :: store where
  "used_code_store \<equiv>
     \<lparr>committed = \<lparr>spin_codes = [\<lparr>sc_id = 1, sc_code = ''10000'', sc_status = ''used'',
                                   sc_created_at = 0, sc_used_at = Some 7\<rparr>],
                   spin_results = [\<lparr>sr_id = 1, sr_code_id = 1, sr_outcome = ''$25'',
                                     sr_prize_cents = 2500, sr_odds = 0.20, sr_created_at = 7\<rparr>]\<rparr>,
      spin_codes_id_seq = 1, spin_results_id_seq = 1\<rparr>"

section \<open>Properties of the outcome selector\<close>

lemma walk_Some_iff:
  "walk r acc xs = Some t \<longleftrightarrow>
     (\<exists>i<length xs. t = xs ! i
        \<and> r \<le> foldl (+) acc (map weight (take (Suc i) xs))
        \<and> (\<forall>j<i. \<not> r \<le> foldl (+) acc (map weight (take (Suc j) xs))))"
proof (induction xs arbitrary: acc)
  case Nil
  then show ?case by simp
next
  case (Cons x xs)
  show ?case
  proof (cases "r \<le> acc + weight x")
    case True
    have "\<exists>i<length (x # xs). x = (x # xs) ! i
        \<and> r \<le> foldl (+) acc (map weight (take (Suc i) (x # xs)))
        \<and> (\<forall>j<i. \<not> r \<le> foldl (+) acc (map weight (take (Suc j) (x # xs))))"
      using True by (intro exI [of _ 0]) simp
    moreover have "t = x" if "i < length (x # xs)" "t = (x # xs) ! i"
      "\<forall>j<i. \<not> r \<le> foldl (+) acc (map weight (take (Suc j) (x # xs)))" for i
    proof (cases i)
      case 0
      with that show ?thesis by simp
    next
      case (Suc k)
      with that(3) have "\<not> r \<le> foldl (+) acc (map weight (take (Suc 0) (x # xs)))"
        by blast
      with True show ?thesis by simp
    qed
    ultimately have "(\<exists>i<length (x # xs). t = (x # xs) ! i
        \<and> r \<le> foldl (+) acc (map weight (take (Suc i) (x # xs)))
        \<and> (\<forall>j<i. \<not> r \<le> foldl (+) acc (map weight (take (Suc j) (x # xs)))))
      \<longleftrightarrow> t = x"
      by blast
    moreover have "walk r acc (x # xs) = Some t \<longleftrightarrow> t = x"
      using True by (auto simp: Let_def)
    ultimately show ?thesis by blast
  next
    case False
    have "(\<exists>i<length (x # xs). t = (x # xs) ! i
        \<and> r \<le> foldl (+) acc (map weight (take (Suc i) (x # xs)))
        \<and> (\<forall>j<i. \<not> r \<le> foldl (+) acc (map weight (take (Suc j) (x # xs)))))
      \<longleftrightarrow> (\<exists>i<length xs. t = xs ! i
        \<and> r \<le> foldl (+) (acc + weight x) (map weight (take (Suc i) xs))
        \<and> (\<forall>j<i. \<not> r \<le> foldl (+) (acc + weight x) (map weight (take (Suc j) xs))))"
      (is "?L \<longleftrightarrow> ?R")
    proof
      assume ?L
      then obtain i where i: "i < length (x # xs)" "t = (x # xs) ! i"
        "r \<le> foldl (+) acc (map weight (take (Suc i) (x # xs)))"
        "\<forall>j<i. \<not> r \<le> foldl (+) acc (map weight (take (Suc j) (x # xs)))"
        by blast
      from i(3) False obtain k where k: "i = Suc k" by (cases i) auto
      have "\<not> r \<le> foldl (+) (acc + weight x) (map weight (take (Suc j) xs))" if "j < k" for j
        using i(4) that k by (auto dest: spec [of _ "Suc j"])
      with i k show ?R by (intro exI [of _ k]) auto
    next
      assume ?R
      then obtain k where k: "k < length xs" "t = xs ! k"
        "r \<le> foldl (+) (acc + weight x) (map weight (take (Suc k) xs))"
        "\<forall>j<k. \<not> r \<le> foldl (+) (acc + weight x) (map weight (take (Suc j) xs))"
        by blast
      have "\<not> r \<le> foldl (+) acc (map weight (take (Suc j) (x # xs)))" if "j < Suc k" for j
        using that k(4) False by (cases j) auto
      with k show ?L by (intro exI [of _ "Suc k"]) auto
    qed
    with False Cons.IH [of "acc + weight x"] show ?thesis by (simp add: Let_def)
  qed
qed

lemma walk_None_iff:
  "walk r acc xs = None \<longleftrightarrow>
     (\<forall>i<length xs. \<not> r \<le> foldl (+) acc (map weight (take (Suc i) xs)))"
proof (induction xs arbitrary: acc)
  case Nil
  then show ?case by simp
next
  case (Cons x xs)
  show ?case
  proof (cases "r \<le> acc + weight x")
    case True
    then have "\<exists>i<length (x # xs). r \<le> foldl (+) acc (map weight (take (Suc i) (x # xs)))"
      by (intro exI [of _ 0]) simp
    with True show ?thesis by (auto simp: Let_def)
  next
    case False
    have "(\<forall>i<length (x # xs). \<not> r \<le> foldl (+) acc (map weight (take (Suc i) (x # xs))))
      \<longleftrightarrow> (\<forall>i<length xs. \<not> r \<le> foldl (+) (acc + weight x) (map weight (take (Suc i) xs)))"
      using False by (auto simp: All_less_Suc2)
    with False Cons.IH [of "acc + weight x"] show ?thesis by (simp add: Let_def)
  qed
qed

text \<open>
  C3. For every random value, \<^verbatim>\<open>selectWeightedOutcome\<close> over a table that is not empty
  returns a tier of the table: the first one, in configured order, whose cumulative
  weight is at least the random value, and the last tier of the table when no tier has
  such a cumulative weight. For the tiers \<open>A\<close> (0.05, 10000) and \<open>B\<close> (0.95, 0), the
  random value 0.03 gives \<open>A\<close> with payout 10000 and 0.50 gives \<open>B\<close> with payout 0.
\<close>

theorem selectWeightedOutcome_first_tier:
  fixes table :: "'w::{zero,plus,ord} outcome list"
  shows "(table \<noteq> [] \<longrightarrow>
      (\<exists>t. selectWeightedOutcome_from table r = Some t \<and> t \<in> set table \<and>
         ((\<exists>i<length table. t = table ! i \<and> r \<le> cumulative table i
              \<and> (\<forall>j<i. \<not> r \<le> cumulative table j))
          \<or> ((\<forall>i<length table. \<not> r \<le> cumulative table i) \<and> t = last table))))
    \<and> selectWeightedOutcome_from
         [\<lparr>prize = ''A'', weight = 0.05, cents = 10000\<rparr>, \<lparr>prize = ''B'', weight = 0.95, cents = 0\<rparr>]
         (0.03 :: real) = Some \<lparr>prize = ''A'', weight = 0.05, cents = 10000\<rparr>
    \<and> selectWeightedOutcome_from
         [\<lparr>prize = ''A'', weight = 0.05, cents = 10000\<rparr>, \<lparr>prize = ''B'', weight = 0.95, cents = 0\<rparr>]
         (0.50 :: real) = Some \<lparr>prize = ''B'', weight = 0.95, cents = 0\<rparr>"
proof (intro conjI impI)
  assume ne: "table \<noteq> []"
  show "\<exists>t. selectWeightedOutcome_from table r = Some t \<and> t \<in> set table \<and>
         ((\<exists>i<length table. t = table ! i \<and> r \<le> cumulative table i
              \<and> (\<forall>j<i. \<not> r \<le> cumulative table j))
          \<or> ((\<forall>i<length table. \<not> r \<le> cumulative table i) \<and> t = last table))"
  proof (cases "walk r 0 table")
    case None
    then have "\<forall>i<length table. \<not> r \<le> cumulative table i"
      by (simp add: walk_None_iff cumulative_def)
    moreover have "selectWeightedOutcome_from table r = Some (last table)"
      using None ne by (simp add: selectWeightedOutcome_from_def last_conv_nth)
    ultimately show ?thesis using ne by simp
  next
    case (Some t)
    then obtain i where "i < length table" "t = table ! i" "r \<le> cumulative table i"
        "\<forall>j<i. \<not> r \<le> cumulative table j"
      unfolding walk_Some_iff cumulative_def by blast
    moreover have "selectWeightedOutcome_from table r = Some t"
      using Some by (simp add: selectWeightedOutcome_from_def)
    ultimately show ?thesis by auto
  qed
qed (simp_all add: selectWeightedOutcome_from_def)

theorem selectWeightedOutcome_first_tier_witness:
  "SPIN_OUTCOMES \<noteq> [] \<and>
   (\<exists>t. selectWeightedOutcome (1 / 2) = Some t \<and> t \<in> set SPIN_OUTCOMES \<and>
      ((\<exists>i<length SPIN_OUTCOMES. t = SPIN_OUTCOMES ! i \<and> 1 / 2 \<le> cumulative SPIN_OUTCOMES i
           \<and> (\<forall>j<i. \<not> 1 / 2 \<le> cumulative SPIN_OUTCOMES j))
       \<or> ((\<forall>i<length SPIN_OUTCOMES. \<not> 1 / 2 \<le> cumulative SPIN_OUTCOMES i)
            \<and> t = last SPIN_OUTCOMES)))"
proof -
  have ne: "SPIN_OUTCOMES \<noteq> []" by (simp add: SPIN_OUTCOMES_def)
  from selectWeightedOutcome_first_tier [of SPIN_OUTCOMES "1 / 2"] ne
  show ?thesis unfolding selectWeightedOutcome_def by blast
qed

text \<open>
  C9, as the claim states it: the two tables differ and exactly one of them has weights
  that sum to 1. The source does not bear this out.
\<close>

theorem SPIN_OUTCOMES_differ_counterexample:
  "\<not> (SPIN_OUTCOMES \<noteq> SPIN_OUTCOMES_part_000
      \<and> ((sum_list (map weight SPIN_OUTCOMES) = 1)
           \<noteq> (sum_list (map weight SPIN_OUTCOMES_part_000) = 1)))"
  by (simp add: SPIN_OUTCOMES_def SPIN_OUTCOMES_part_000_def)

text \<open>
  C9, amended. The two server variants configure the same table: the same labels,
  weights and payouts in the same order; and in both the weights, as the decimal
  fractions written in the source, sum to exactly 1.
\<close>

theorem SPIN_OUTCOMES_same_in_both_variants:
  "SPIN_OUTCOMES_part_000 = SPIN_OUTCOMES
   \<and> sum_list (map weight SPIN_OUTCOMES) = 1
   \<and> sum_list (map weight SPIN_OUTCOMES_part_000) = 1"
  by (simp add: SPIN_OUTCOMES_def SPIN_OUTCOMES_part_000_def)

section \<open>The store calls and the handlers, step by step\<close>

lemmas query_defs = query_BEGIN_def query_ROLLBACK_def query_COMMIT_def
  query_SELECT_spin_codes_def query_SELECT_spin_codes_FOR_UPDATE_def
  query_UPDATE_spin_codes_def query_INSERT_spin_results_def query_INSERT_spin_codes_def
  send_def visible_def put_tables_def

lemma BEGIN_frame:
  "query_BEGIN s = (res, s') \<Longrightarrow> db s' = db s \<and> (res \<noteq> Inl StorageFailure \<longrightarrow> tx s' \<noteq> None)"
  by (auto simp: query_defs split: if_splits bool.splits)

lemma ROLLBACK_frame: "query_ROLLBACK s = (res, s') \<Longrightarrow> db s' = db s"
  by (auto simp: query_defs split: if_splits bool.splits)

lemma COMMIT_frame: "query_COMMIT s = (Inl e, s') \<Longrightarrow> db s' = db s \<and> tx s' = tx s"
  by (auto simp: query_defs split: if_splits bool.splits)

lemma SELECT_FOR_UPDATE_frame:
  "query_SELECT_spin_codes_FOR_UPDATE c s = (res, s') \<Longrightarrow> db s' = db s \<and> tx s' = tx s"
  by (auto simp: query_defs split: if_splits bool.splits)

lemma SELECT_frame:
  "query_SELECT_spin_codes c s = (res, s') \<Longrightarrow> db s' = db s \<and> tx s' = tx s"
  by (auto simp: query_defs split: if_splits bool.splits)

lemma UPDATE_frame:
  "query_UPDATE_spin_codes st i now s = (res, s') \<Longrightarrow> tx s \<noteq> None \<Longrightarrow> db s' = db s \<and> tx s' \<noteq> None"
  by (auto simp: query_defs split: if_splits bool.splits)

lemma INSERT_results_frame:
  "query_INSERT_spin_results i a b c now s = (res, s') \<Longrightarrow> tx s \<noteq> None \<Longrightarrow>
     committed (db s') = committed (db s) \<and> spin_codes_id_seq (db s') = spin_codes_id_seq (db s) \<and> tx s' \<noteq> None"
  by (auto simp: query_defs Let_def split: if_splits bool.splits)

lemma play_try_frame:
  assumes "play_try code r now s = (res, s')" "\<forall>x. res \<noteq> Inr (Json x)"
  shows "committed (db s') = committed (db s)"
  using assms
  unfolding play_try_def await_def rollback_and_answer_def
  by (auto simp: Let_def split: prod.splits sum.splits if_splits option.splits bool.splits
      dest!: BEGIN_frame ROLLBACK_frame COMMIT_frame SELECT_FOR_UPDATE_frame UPDATE_frame INSERT_results_frame)

lemma COMMIT_seq: "query_COMMIT s = (res, s') \<Longrightarrow> spin_codes_id_seq (db s') = spin_codes_id_seq (db s)"
  by (auto simp: query_defs split: if_splits bool.splits)

lemma play_try_codes_seq:
  assumes "play_try code r now s = (res, s')"
  shows "spin_codes_id_seq (db s') = spin_codes_id_seq (db s)"
  using assms
  unfolding play_try_def await_def rollback_and_answer_def
  by (auto simp: Let_def split: prod.splits sum.splits if_splits option.splits bool.splits
      dest!: BEGIN_frame ROLLBACK_frame COMMIT_seq SELECT_FOR_UPDATE_frame UPDATE_frame INSERT_results_frame)

lemma INSERT_results_in_tx:
  "query_INSERT_spin_results i a b c now s = (Inr res, s') \<Longrightarrow> tx s = Some t \<Longrightarrow>
     res = \<lparr>sr_id = Suc (spin_results_id_seq (db s)), sr_code_id = i, sr_outcome = a,
            sr_prize_cents = b, sr_odds = c, sr_created_at = now\<rparr>
     \<and> tx s' = Some (t\<lparr>spin_results := spin_results t @ [res]\<rparr>)"
  by (auto simp: query_defs Let_def split: bool.splits if_splits)

lemma await_Inr:
  "await m f = (Inr b, s') \<Longrightarrow> \<exists>a s1. m = (Inr a, s1) \<and> f a s1 = (Inr b, s')"
  by (auto simp: await_def split: prod.splits sum.splits)

lemma rollback_and_answer_not_Json: "rollback_and_answer n msg s \<noteq> (Inr (Json x), s')"
  by (auto simp: rollback_and_answer_def await_def split: prod.splits sum.splits)

lemma play_try_success:
  assumes "play_try code r now s = (Inr (Json result), s')" "tx s = None"
  shows "\<exists>v row rest out. code = Some v \<and> \<not> invalid_code_format code
     \<and> filter (\<lambda>row. sc_code row = v) (spin_codes (committed (db s))) = row # rest
     \<and> sc_status row \<noteq> ''used'' \<and> selectWeightedOutcome r = Some out
     \<and> result = \<lparr>sr_id = Suc (spin_results_id_seq (db s)), sr_code_id = sc_id row,
                  sr_outcome = prize out, sr_prize_cents = cents out, sr_odds = weight out,
                  sr_created_at = now\<rparr>
     \<and> committed (db s') =
         \<lparr>spin_codes = map (\<lambda>c. if sc_id c = sc_id row
                                 then c\<lparr>sc_status := ''used'', sc_used_at := Some now\<rparr> else c)
                            (spin_codes (committed (db s))),
          spin_results = spin_results (committed (db s)) @ [result]\<rparr>"
proof -
  from await_Inr [OF assms(1) [unfolded play_try_def]]
  obtain s1 where b: "query_BEGIN s = (Inr (), s1)"
    and r1: "(if invalid_code_format code then rollback_and_answer 400 ''Invalid code format'' s1
      else await (query_SELECT_spin_codes_FOR_UPDATE (the code) s1) (\<lambda>rows s.
           if length rows = 0 then rollback_and_answer 404 ''Code not found'' s
           else
             (let codeData = rows ! 0
              in if sc_status codeData = ''used''
                 then rollback_and_answer 400 ''Code already used'' s
                 else
                   (let outcome = selectWeightedOutcome r
                    in await (query_UPDATE_spin_codes ''used'' (sc_id codeData) now s) (\<lambda>_ s.
                         (case outcome of
                            None \<Rightarrow> (Inl TypeError, s)
                          | Some outcome \<Rightarrow>
                              await (query_INSERT_spin_results (sc_id codeData) (prize outcome)
                                       (cents outcome) (weight outcome) now s) (\<lambda>spinResult s.
                                await (query_COMMIT s) (\<lambda>_ s.
                                  (Inr (Json spinResult), s))))))))) = (Inr (Json result), s')"
    by auto
  from r1 have valid: "\<not> invalid_code_format code"
    by (auto simp: rollback_and_answer_not_Json)
  then obtain v where v: "code = Some v" by (cases code) (auto simp: invalid_code_format_def)
  from b have s1: "tx s1 = Some (committed (db s))" "db s1 = db s"
    using assms(2) by (auto simp: query_defs split: bool.splits)
  from r1 valid v have "await (query_SELECT_spin_codes_FOR_UPDATE v s1) (\<lambda>rows s.
           if length rows = 0 then rollback_and_answer 404 ''Code not found'' s
           else
             (let codeData = rows ! 0
              in if sc_status codeData = ''used''
                 then rollback_and_answer 400 ''Code already used'' s
                 else
                   (let outcome = selectWeightedOutcome r
                    in await (query_UPDATE_spin_codes ''used'' (sc_id codeData) now s) (\<lambda>_ s.
                         (case outcome of
                            None \<Rightarrow> (Inl TypeError, s)
                          | Some outcome \<Rightarrow>
                              await (query_INSERT_spin_results (sc_id codeData) (prize outcome)
                                       (cents outcome) (weight outcome) now s) (\<lambda>spinResult s.
                                await (query_COMMIT s) (\<lambda>_ s.
                                  (Inr (Json spinResult), s)))))))) = (Inr (Json result), s')"
    by simp
  from await_Inr [OF this]
  obtain rows s2 where sel: "query_SELECT_spin_codes_FOR_UPDATE v s1 = (Inr rows, s2)"
    and r2: "(if length rows = 0 then rollback_and_answer 404 ''Code not found'' s2
           else
             (let codeData = rows ! 0
              in if sc_status codeData = ''used''
                 then rollback_and_answer 400 ''Code already used'' s2
                 else
                   (let outcome = selectWeightedOutcome r
                    in await (query_UPDATE_spin_codes ''used'' (sc_id codeData) now s2) (\<lambda>_ s.
                         (case outcome of
                            None \<Rightarrow> (Inl TypeError, s)
                          | Some outcome \<Rightarrow>
                              await (query_INSERT_spin_results (sc_id codeData) (prize outcome)
                                       (cents outcome) (weight outcome) now s) (\<lambda>spinResult s.
                                await (query_COMMIT s) (\<lambda>_ s.
                                  (Inr (Json spinResult), s)))))))) = (Inr (Json result), s')"
    by auto
  from sel s1 have s2: "tx s2 = Some (committed (db s))" "db s2 = db s"
      and rows: "rows = filter (\<lambda>row. sc_code row = v) (spin_codes (committed (db s)))"
    by (auto simp: query_defs split: bool.splits)
  from r2 have ne: "rows \<noteq> []"
    by (auto simp: rollback_and_answer_not_Json)
  then obtain row rest where rr: "rows = row # rest" by (cases rows) auto
  from r2 rr have unused: "sc_status row \<noteq> ''used''"
    by (auto simp: rollback_and_answer_not_Json)
  from r2 rr unused
  have "await (query_UPDATE_spin_codes ''used'' (sc_id row) now s2) (\<lambda>_ s.
          (case selectWeightedOutcome r of
             None \<Rightarrow> (Inl TypeError, s)
           | Some outcome \<Rightarrow>
               await (query_INSERT_spin_results (sc_id row) (prize outcome) (cents outcome)
                        (weight outcome) now s)
                 (\<lambda>spinResult s. await (query_COMMIT s) (\<lambda>_ s. (Inr (Json spinResult), s)))))
     = (Inr (Json result), s')"
    by (simp add: Let_def)
  from await_Inr [OF this]
  obtain s3 where upd: "query_UPDATE_spin_codes ''used'' (sc_id row) now s2 = (Inr (), s3)"
    and r3': "(case selectWeightedOutcome r of
             None \<Rightarrow> (Inl TypeError, s3)
           | Some outcome \<Rightarrow>
               await (query_INSERT_spin_results (sc_id row) (prize outcome) (cents outcome)
                        (weight outcome) now s3)
                 (\<lambda>spinResult s. await (query_COMMIT s) (\<lambda>_ s. (Inr (Json spinResult), s))))
     = (Inr (Json result), s')"
    by auto
  then obtain out where out: "selectWeightedOutcome r = Some out"
    by (cases "selectWeightedOutcome r") auto
  with r3' have r3:
    "await (query_INSERT_spin_results (sc_id row) (prize out) (cents out) (weight out) now s3)
                   (\<lambda>spinResult s. await (query_COMMIT s) (\<lambda>_ s. (Inr (Json spinResult), s)))
     = (Inr (Json result), s')"
    by simp
  let ?codes' = "map (\<lambda>c. if sc_id c = sc_id row
                          then c\<lparr>sc_status := ''used'', sc_used_at := Some now\<rparr> else c)
                     (spin_codes (committed (db s)))"
  from upd s2 have s3: "db s3 = db s" "tx s3 = Some ((committed (db s))\<lparr>spin_codes := ?codes'\<rparr>)"
    by (auto simp: query_defs split: bool.splits)
  from await_Inr [OF r3]
  obtain res s4 where
    ins: "query_INSERT_spin_results (sc_id row) (prize out) (cents out) (weight out) now s3 = (Inr res, s4)"
    and r4: "await (query_COMMIT s4) (\<lambda>_ s. (Inr (Json res), s)) = (Inr (Json result), s')"
    by auto
  let ?result = "\<lparr>sr_id = Suc (spin_results_id_seq (db s)), sr_code_id = sc_id row,
                  sr_outcome = prize out, sr_prize_cents = cents out, sr_odds = weight out,
                  sr_created_at = now\<rparr>"
  from INSERT_results_in_tx [OF ins s3(2)] s3(1) have s4: "res = ?result"
      "tx s4 = Some \<lparr>spin_codes = ?codes', spin_results = spin_results (committed (db s)) @ [?result]\<rparr>"
    by simp_all
  from await_Inr [OF r4] have com: "query_COMMIT s4 = (Inr (), s')" and res: "result = res"
    by auto
  from com s4 have "committed (db s') =
      \<lparr>spin_codes = ?codes', spin_results = spin_results (committed (db s)) @ [?result]\<rparr>"
    by (auto simp: query_defs split: bool.splits)
  moreover have "filter (\<lambda>row. sc_code row = v) (spin_codes (committed (db s))) = row # rest"
    using rows rr by simp
  ultimately show ?thesis
    using v valid unused out res s4(1)
    by (intro exI [of _ v] exI [of _ row] exI [of _ rest] exI [of _ out]) simp
qed

lemma play_failure:
  assumes "play code r now s = (answer, s')" "\<forall>x. answer \<noteq> Json x"
  shows "committed (db s') = committed (db s)"
  using assms unfolding play_def send_def
  by (auto split: prod.splits sum.splits bool.splits dest!: play_try_frame ROLLBACK_frame)

lemma play_codes_seq:
  assumes "play code r now s = (answer, s')"
  shows "spin_codes_id_seq (db s') = spin_codes_id_seq (db s)"
  using assms unfolding play_def send_def
  by (auto split: prod.splits sum.splits bool.splits dest!: play_try_codes_seq ROLLBACK_frame)

lemma play_success:
  assumes "play code r now s = (Json result, s')" "tx s = None"
  shows "\<exists>v row rest out. code = Some v \<and> \<not> invalid_code_format code
     \<and> filter (\<lambda>row. sc_code row = v) (spin_codes (committed (db s))) = row # rest
     \<and> sc_status row \<noteq> ''used'' \<and> selectWeightedOutcome r = Some out
     \<and> result = \<lparr>sr_id = Suc (spin_results_id_seq (db s)), sr_code_id = sc_id row,
                  sr_outcome = prize out, sr_prize_cents = cents out, sr_odds = weight out,
                  sr_created_at = now\<rparr>
     \<and> committed (db s') =
         \<lparr>spin_codes = map (\<lambda>c. if sc_id c = sc_id row
                                 then c\<lparr>sc_status := ''used'', sc_used_at := Some now\<rparr> else c)
                            (spin_codes (committed (db s))),
          spin_results = spin_results (committed (db s)) @ [result]\<rparr>"
proof -
  let ?s0 = "s\<lparr>pending := tl (pending s), issued := issued s @ [CONNECT]\<rparr>"
  from assms(1) obtain s1 where "play_try code r now ?s0 = (Inr (Json result), s1)" "db s' = db s1"
    unfolding play_def send_def
    by (auto split: prod.splits sum.splits bool.splits)
  moreover have "tx ?s0 = None" "db ?s0 = db s" using assms(2) by simp_all
  ultimately show ?thesis using play_try_success [of code r now ?s0 result s1] by simp
qed

section \<open>The generation loop\<close>

lemma generate_loop_invariant:
  assumes ret: "generate_loop rnd now n i k codes s = Some (res, s')"
    and init: "I codes s"
    and ok: "\<And>k codes s row s1. I codes s \<Longrightarrow>
        query_INSERT_spin_codes (generateSpinCode (rnd k)) (now k) s = (Inr row, s1) \<Longrightarrow>
        I (codes @ [row]) s1"
    and err: "\<And>k codes s e s1. I codes s \<Longrightarrow>
        query_INSERT_spin_codes (generateSpinCode (rnd k)) (now k) s = (Inl e, s1) \<Longrightarrow>
        I codes s1"
  shows "\<exists>codes'. I codes' s' \<and> (\<forall>cs. res = Inr cs \<longrightarrow> cs = codes' \<and> length cs = length codes + nat (n - i))"
proof -
  define Q where "Q = (\<lambda>(rnd' :: nat \<Rightarrow> real) (now' :: nat \<Rightarrow> timestamp) (n :: int) (i :: int) (k :: nat)
      codes s (y :: (js_error + spin_code list) \<times> session).
    rnd' = rnd \<longrightarrow> now' = now \<longrightarrow> I codes s \<longrightarrow>
      (\<exists>codes'. I codes' (snd y) \<and>
         (\<forall>cs. fst y = Inr cs \<longrightarrow> cs = codes' \<and> length cs = length codes + nat (n - i))))"
  have "Q rnd now n i k codes s (res, s')"
  proof (rule generate_loop.raw_induct [where P = Q, OF _ ret], goal_cases)
    case (1 loop rnd' now' n i k codes s y)
    show ?case unfolding Q_def
    proof (intro impI)
      assume eq: "rnd' = rnd" "now' = now" and I: "I codes s"
      show "\<exists>codes'. I codes' (snd y) \<and>
         (\<forall>cs. fst y = Inr cs \<longrightarrow> cs = codes' \<and> length cs = length codes + nat (n - i))"
      proof (cases "i < n")
        case False
        with 1(2) have "y = (Inr codes, s)" by simp
        with I False show ?thesis by auto
      next
        case True
        obtain r s1 where q: "query_INSERT_spin_codes (generateSpinCode (rnd k)) (now k) s = (r, s1)"
          by (cases "query_INSERT_spin_codes (generateSpinCode (rnd k)) (now k) s")
        show ?thesis
        proof (cases r)
          case (Inr row)
          with 1(2) True q eq have "loop rnd now n (i + 1) (Suc k) (codes @ [row]) s1 = Some y"
            by simp
          from 1(1) [OF this] ok [OF I q [unfolded Inr]] True show ?thesis
            unfolding Q_def by auto
        next
          case (Inl e)
          note I1 = err [OF I q [unfolded Inl]]
          show ?thesis
          proof (cases "e = UniqueViolation")
            case True
            with 1(2) \<open>i < n\<close> q eq Inl have "loop rnd now n i (Suc k) codes s1 = Some y"
              by simp
            from 1(1) [OF this] I1 show ?thesis unfolding Q_def by auto
          next
            case False
            with 1(2) \<open>i < n\<close> q eq Inl have "y = (Inl e, s1)" by simp
            with I1 show ?thesis by auto
          qed
        qed
      qed
    qed
  qed
  with init show ?thesis unfolding Q_def by simp
qed

lemma fault_now_False: "True \<notin> set fs \<Longrightarrow> \<not> fault_now fs"
  by (cases fs) (auto simp: fault_now_def)

lemma no_fault_tl: "True \<notin> set fs \<Longrightarrow> True \<notin> set (tl fs)"
  by (cases fs) auto

section \<open>Redemption failures\<close>

lemma generateSpinCode_0: "generateSpinCode 0 = ''10000''"
  by (simp add: generateSpinCode_def toString_def digits.simps digit_char_def)

text \<open>
  C2. Whenever \<^verbatim>\<open>POST /spin/play\<close> answers anything but success (invalid format, not
  found, already used, 500 after a failure of any store call, or no answer at all), the
  committed tables are what they were: no status or \<^verbatim>\<open>used_at\<close> has changed and no
  \<^verbatim>\<open>spin_results\<close> row has been added. This holds for every input, every store and
  every fate of the store calls, a failing \<^verbatim>\<open>COMMIT\<close> included.
\<close>

theorem play_failure_leaves_store_unchanged:
  assumes "play code random now (request faults st) = (answer, s')"
    and "\<forall>result. answer \<noteq> Json result"
  shows "committed (db s') = committed st"
  using play_failure [OF assms] by (simp add: request_def)

lemmas handler_defs = play_def play_try_def await_def rollback_and_answer_def request_def
  invalid_code_format_def test_5_digits_def is_digit_def
  selectWeightedOutcome_def selectWeightedOutcome_from_def SPIN_OUTCOMES_def fault_now_def
  SERIAL_max_def

theorem play_failure_leaves_store_unchanged_witness:
  "fst (play (Some ''10000'') (1 / 2) 7 (request [False, False, False, False, True] one_code_store))
     = Failure 500 ''Spin failed''
   \<and> committed (db (snd (play (Some ''10000'') (1 / 2) 7
         (request [False, False, False, False, True] one_code_store))))
     = committed one_code_store"
proof -
  let ?run = "play (Some ''10000'') (1 / 2) 7 (request [False, False, False, False, True] one_code_store)"
  have answer: "fst ?run = Failure 500 ''Spin failed''"
    by (simp add: handler_defs query_defs Let_def)
  then have "\<forall>result. fst ?run \<noteq> Json result" by simp
  from play_failure_leaves_store_unchanged [OF surjective_pairing this] answer
  show ?thesis by simp
qed

section \<open>Format check\<close>

lemma verify_db: "verify code s = (answer, s') \<Longrightarrow> db s' = db s"
  unfolding verify_def
  by (auto simp: Let_def split: if_splits prod.splits sum.splits dest!: SELECT_frame)

lemma INSERT_codes_cases:
  assumes "query_INSERT_spin_codes c t s = (res, s1)" "tx s = None"
  shows "tx s1 = None
    \<and> spin_results (committed (db s1)) = spin_results (committed (db s))
    \<and> spin_results_id_seq (db s1) = spin_results_id_seq (db s)
    \<and> spin_codes_id_seq (db s) \<le> spin_codes_id_seq (db s1)
    \<and> (case res of
          Inl e \<Rightarrow> spin_codes (committed (db s1)) = spin_codes (committed (db s))
        | Inr row \<Rightarrow>
            row = \<lparr>sc_id = Suc (spin_codes_id_seq (db s)), sc_code = c, sc_status = ''unused'',
                   sc_created_at = t, sc_used_at = None\<rparr>
            \<and> c \<notin> set (map sc_code (spin_codes (committed (db s))))
            \<and> spin_codes (committed (db s1)) = spin_codes (committed (db s)) @ [row]
            \<and> spin_codes_id_seq (db s1) = Suc (spin_codes_id_seq (db s)))"
  using assms
  by (auto simp: query_defs Let_def split: bool.splits if_splits)

lemma generate_Some:
  "generate count rnd now s = Some (answer, s') \<Longrightarrow>
     \<exists>res. generate_loop rnd now (min (case count of None \<Rightarrow> 1 | Some c \<Rightarrow> c) 100) 0 0 [] s
       = Some (res, s')"
  by (auto simp: generate_def split: option.splits prod.splits sum.splits)

lemma generate_loop_appends:
  assumes "generate_loop rnd now n i k codes s = Some (res, s')" "tx s = None"
  shows "tx s' = None \<and> (\<exists>new. spin_codes (committed (db s')) = spin_codes (committed (db s)) @ new
      \<and> spin_results (committed (db s')) = spin_results (committed (db s))
      \<and> (\<forall>row\<in>set new. sc_status row = ''unused'' \<and> (\<exists>k. sc_code row = generateSpinCode (rnd k))))"
proof -
  let ?I = "\<lambda>(_ :: spin_code list) s1. tx s1 = None \<and>
     (\<exists>new. spin_codes (committed (db s1)) = spin_codes (committed (db s)) @ new
      \<and> spin_results (committed (db s1)) = spin_results (committed (db s))
      \<and> (\<forall>row\<in>set new. sc_status row = ''unused'' \<and> (\<exists>k. sc_code row = generateSpinCode (rnd k))))"
  have "\<exists>codes'. ?I codes' s' \<and> (\<forall>cs. res = Inr cs \<longrightarrow> cs = codes' \<and> length cs = length codes + nat (n - i))"
  proof (rule generate_loop_invariant [OF assms(1), where I = ?I], goal_cases)
    case 1
    show ?case using assms(2) by simp
  next
    case (2 k codes s0 row s1)
    then obtain new where new: "tx s0 = None"
      "spin_codes (committed (db s0)) = spin_codes (committed (db s)) @ new"
      "spin_results (committed (db s0)) = spin_results (committed (db s))"
      "\<forall>row\<in>set new. sc_status row = ''unused'' \<and> (\<exists>k. sc_code row = generateSpinCode (rnd k))"
      by blast
    from INSERT_codes_cases [OF 2(2) new(1)] new
    have "tx s1 = None" "spin_codes (committed (db s1)) = spin_codes (committed (db s)) @ (new @ [row])"
      "spin_results (committed (db s1)) = spin_results (committed (db s))"
      "\<forall>row\<in>set (new @ [row]). sc_status row = ''unused'' \<and> (\<exists>k. sc_code row = generateSpinCode (rnd k))"
      by auto
    then show ?case by blast
  next
    case (3 k codes s0 e s1)
    from INSERT_codes_cases [OF 3(2)] 3(1) show ?case by auto
  qed
  then show ?thesis by blast
qed

text \<open>
  C6, amended. For every string that is not exactly five ASCII digits, and for an
  absent \<^verbatim>\<open>code\<close>, \<^verbatim>\<open>POST /spin/verify\<close> answers 400 "Invalid code format" without
  any call on the store. \<^verbatim>\<open>POST /spin/play\<close> checks the format only after it has taken
  a connection and opened a transaction: it makes no call other than \<^verbatim>\<open>connect\<close>,
  \<^verbatim>\<open>BEGIN\<close> and \<^verbatim>\<open>ROLLBACK\<close>, reads and writes no row and leaves the store as it
  was; it answers 400 "Invalid code format" when these three calls go through, and
  500 "Spin failed" or nothing, never 400, when one of them fails.
\<close>

theorem invalid_format_rejected:
  assumes "invalid_code_format code"
  shows "verify code (request faults st) = (Failure 400 ''Invalid code format'', request faults st)
    \<and> db (snd (play code random now (request faults st))) = st
    \<and> set (issued (snd (play code random now (request faults st)))) \<subseteq> {CONNECT, BEGIN, ROLLBACK}
    \<and> fst (play code random now (request faults st))
        \<in> {Failure 400 ''Invalid code format'', Failure 500 ''Spin failed'', NoResponse}
    \<and> (True \<notin> set (take 3 faults) \<longrightarrow>
         fst (play code random now (request faults st)) = Failure 400 ''Invalid code format''
         \<and> issued (snd (play code random now (request faults st))) = [CONNECT, BEGIN, ROLLBACK])
    \<and> (True \<in> set (take 3 faults) \<longrightarrow>
         fst (play code random now (request faults st)) \<in> {Failure 500 ''Spin failed'', NoResponse})"
proof -
  have v: "verify code (request faults st) = (Failure 400 ''Invalid code format'', request faults st)"
    using assms by (simp add: verify_def)
  have t: "play_try code random now s
      = await (query_BEGIN s) (\<lambda>_ s. rollback_and_answer 400 ''Invalid code format'' s)" for s
    using assms by (simp add: play_try_def)
  have p: "db (snd (play code random now (request faults st))) = st
    \<and> set (issued (snd (play code random now (request faults st)))) \<subseteq> {CONNECT, BEGIN, ROLLBACK}
    \<and> fst (play code random now (request faults st))
        \<in> {Failure 400 ''Invalid code format'', Failure 500 ''Spin failed'', NoResponse}"
    by (simp add: play_def t await_def rollback_and_answer_def query_BEGIN_def query_ROLLBACK_def
        send_def request_def visible_def split: bool.splits)
  have q: "fst (play code random now (request faults st)) = Failure 400 ''Invalid code format''
         \<and> issued (snd (play code random now (request faults st))) = [CONNECT, BEGIN, ROLLBACK]"
    if "True \<notin> set (take 3 faults)"
  proof -
    have "\<not> fault_now faults" "\<not> fault_now (tl faults)" "\<not> fault_now (tl (tl faults))"
      using that by (cases faults; cases "tl faults"; cases "tl (tl faults)";
        auto simp: fault_now_def numeral_3_eq_3)+
    then show ?thesis
      by (simp add: play_def t await_def rollback_and_answer_def query_BEGIN_def query_ROLLBACK_def
          send_def request_def visible_def)
  qed
  have f: "fst (play code random now (request faults st)) \<in> {Failure 500 ''Spin failed'', NoResponse}"
    if "True \<in> set (take 3 faults)"
  proof -
    have "fault_now faults \<or> fault_now (tl faults) \<or> fault_now (tl (tl faults))"
      using that by (cases faults; cases "tl faults"; cases "tl (tl faults)";
        auto simp: fault_now_def numeral_3_eq_3)
    then show ?thesis
      by (auto simp: play_def t await_def rollback_and_answer_def query_BEGIN_def
          query_ROLLBACK_def send_def request_def visible_def split: bool.splits)
  qed
  from v p q f show ?thesis by blast
qed

theorem invalid_format_rejected_witness:
  "invalid_code_format (Some ''12a45'')
   \<and> verify (Some ''12a45'') (request [] one_code_store)
       = (Failure 400 ''Invalid code format'', request [] one_code_store)
   \<and> fst (play (Some ''12a45'') 0 0 (request [] one_code_store)) = Failure 400 ''Invalid code format''
   \<and> db (snd (play (Some ''12a45'') 0 0 (request [] one_code_store))) = one_code_store
   \<and> fst (play (Some ''12a45'') 0 0 (request [False, False, True] one_code_store))
       \<in> {Failure 500 ''Spin failed'', NoResponse}"
proof -
  have i: "invalid_code_format (Some ''12a45'')"
    by (simp add: invalid_code_format_def test_5_digits_def is_digit_def)
  have "True \<in> set (take 3 [False, False, True])" by (simp add: numeral_3_eq_3)
  with invalid_format_rejected [OF i, of "[False, False, True]" one_code_store 0 0]
  have "fst (play (Some ''12a45'') 0 0 (request [False, False, True] one_code_store))
       \<in> {Failure 500 ''Spin failed'', NoResponse}"
    by blast
  with invalid_format_rejected [OF i, of "[]" one_code_store 0 0] i show ?thesis by simp
qed

text \<open>
  C6, as the claim states it: on a malformed value \<^verbatim>\<open>POST /spin/play\<close> fails with
  "Invalid code format" before it touches the store. For the four-digit value
  \<^verbatim>\<open>1234\<close> it answers 500 "Spin failed" when \<^verbatim>\<open>BEGIN\<close> fails, and when nothing fails
  it has called \<^verbatim>\<open>connect\<close>, \<^verbatim>\<open>BEGIN\<close> and \<^verbatim>\<open>ROLLBACK\<close> on the store.
\<close>

theorem format_check_after_BEGIN_counterexample:
  "invalid_code_format (Some ''1234'')
   \<and> fst (play (Some ''1234'') 0 0 (request [False, True] initializeDatabase))
       = Failure 500 ''Spin failed''
   \<and> issued (snd (play (Some ''1234'') 0 0 (request [] initializeDatabase)))
       = [CONNECT, BEGIN, ROLLBACK]"
  by (simp add: handler_defs query_defs initializeDatabase_def)

section \<open>Used codes\<close>

lemma no_fault_4:
  assumes "True \<notin> set fs"
  shows "\<not> fault_now fs" "\<not> fault_now (tl fs)" "\<not> fault_now (tl (tl fs))"
    "\<not> fault_now (tl (tl (tl fs)))"
  using assms by (simp_all add: fault_now_False no_fault_tl)

lemma verify_fault_free:
  assumes "True \<notin> set faults" "\<not> invalid_code_format (Some v)"
  shows "fst (verify (Some v) (request faults st)) =
     (case filter (\<lambda>row. sc_code row = v) (spin_codes (committed st)) of
        [] \<Rightarrow> Failure 404 ''Code not found''
      | row # _ \<Rightarrow> if sc_status row = ''used'' then Failure 400 ''Code already used''
                   else Json (sc_code row))"
  using assms(2) no_fault_4 [OF assms(1)]
  by (simp add: verify_def query_SELECT_spin_codes_def send_def request_def visible_def Let_def
      split: list.splits)

lemma verify_answers:
  assumes "\<not> invalid_code_format (Some v)"
  shows "fst (verify (Some v) (request faults st)) = Failure 500 ''Verification failed'' \<or>
     fst (verify (Some v) (request faults st)) =
     (case filter (\<lambda>row. sc_code row = v) (spin_codes (committed st)) of
        [] \<Rightarrow> Failure 404 ''Code not found''
      | row # _ \<Rightarrow> if sc_status row = ''used'' then Failure 400 ''Code already used''
                   else Json (sc_code row))"
  using assms
  by (cases "filter (\<lambda>row. sc_code row = v) (spin_codes (committed st))")
    (auto simp: verify_def query_SELECT_spin_codes_def send_def request_def visible_def Let_def
      split: bool.splits)

lemma play_fault_free_rejects:
  assumes "True \<notin> set faults" "\<not> invalid_code_format (Some v)"
    and "filter (\<lambda>row. sc_code row = v) (spin_codes (committed st)) = rows"
  shows "rows = [] \<Longrightarrow>
      fst (play (Some v) random now (request faults st)) = Failure 404 ''Code not found''"
    and "rows \<noteq> [] \<Longrightarrow> sc_status (rows ! 0) = ''used'' \<Longrightarrow>
      fst (play (Some v) random now (request faults st)) = Failure 400 ''Code already used''"
  using assms(2,3) no_fault_4 [OF assms(1)]
  by (simp_all add: play_def play_try_def await_def rollback_and_answer_def
      query_BEGIN_def query_ROLLBACK_def query_SELECT_spin_codes_FOR_UPDATE_def
      send_def request_def visible_def Let_def)

lemma filter_mark_used:
  "filter (\<lambda>row. sc_code row = v) (mark_used i now codes)
     = mark_used i now (filter (\<lambda>row. sc_code row = v) codes)"
  by (induction codes) (auto simp: mark_used_def)

lemma map_sc_id_mark_used: "map sc_id (mark_used i now codes) = map sc_id codes"
  by (induction codes) (auto simp: mark_used_def)

lemma map_sc_code_mark_used: "map sc_code (mark_used i now codes) = map sc_code codes"
  by (induction codes) (auto simp: mark_used_def)

lemma play_success_mark_used:
  assumes "play code r now (request faults st) = (Json result, s')"
  shows "\<exists>v row rest. code = Some v \<and> \<not> invalid_code_format (Some v)
     \<and> filter (\<lambda>row. sc_code row = v) (spin_codes (committed st)) = row # rest
     \<and> sc_status row \<noteq> ''used'' \<and> sr_code_id result = sc_id row
     \<and> spin_codes (committed (db s')) = mark_used (sc_id row) now (spin_codes (committed st))
     \<and> spin_results (committed (db s')) = spin_results (committed st) @ [result]
     \<and> spin_codes_id_seq (db s') = spin_codes_id_seq st"
proof -
  have "tx (request faults st) = None" by (simp add: request_def)
  from play_success [OF assms this] play_codes_seq [OF assms]
  show ?thesis by (fastforce simp: mark_used_def request_def)
qed

lemma redeemed_after_play:
  assumes "play (Some v) r now (request faults st) = (Json result, s')"
  shows "redeemed v (committed (db s')) \<and> \<not> invalid_code_format (Some v)"
proof -
  from play_success_mark_used [OF assms] obtain row rest where
    "filter (\<lambda>row. sc_code row = v) (spin_codes (committed st)) = row # rest"
    "spin_codes (committed (db s')) = mark_used (sc_id row) now (spin_codes (committed st))"
    "\<not> invalid_code_format (Some v)"
    by auto
  then show ?thesis by (simp add: redeemed_def filter_mark_used) (simp add: mark_used_def)
qed

lemma redeemed_mark_used:
  "redeemed v t \<Longrightarrow> spin_codes t' = mark_used i now (spin_codes t) \<Longrightarrow> redeemed v t'"
  by (auto simp: redeemed_def filter_mark_used split: list.splits) (auto simp: mark_used_def)

lemma redeemed_append:
  "redeemed v t \<Longrightarrow> spin_codes t' = spin_codes t @ new \<Longrightarrow> redeemed v t'"
  by (auto simp: redeemed_def split: list.splits)

lemma redeemed_step:
  assumes "step st st'" "redeemed v (committed st)"
  shows "redeemed v (committed st')"
  using assms
proof (cases rule: step.cases)
  case (step_generate rnd count now faults answer s')
  from generate_Some [OF step_generate(3)] obtain res where
    "generate_loop rnd now (min (case count of None \<Rightarrow> 1 | Some c \<Rightarrow> c) 100) 0 0 []
       (request faults st) = Some (res, s')" ..
  from generate_loop_appends [OF this] obtain new where
    "spin_codes (committed (db s')) = spin_codes (committed st) @ new"
    by (auto simp: request_def)
  with assms(2) step_generate(1) show ?thesis by (auto intro: redeemed_append)
next
  case (step_verify code faults answer s')
  from verify_db [OF step_verify(2)] assms(2) step_verify(1) show ?thesis
    by (simp add: request_def)
next
  case (step_play random code t faults answer s')
  show ?thesis
  proof (cases answer)
    case (Json result)
    from play_success_mark_used [OF step_play(4) [unfolded Json]] assms(2) step_play(1)
    show ?thesis by (auto intro: redeemed_mark_used)
  next
    case (Failure n msg)
    with play_failure [OF step_play(4)] assms(2) step_play(1) show ?thesis
      by (simp add: request_def)
  next
    case NoResponse
    with play_failure [OF step_play(4)] assms(2) step_play(1) show ?thesis
      by (simp add: request_def)
  qed
qed

lemma redeemed_steps:
  "rtranclp step st st' \<Longrightarrow> redeemed v (committed st) \<Longrightarrow> redeemed v (committed st')"
  by (induction rule: rtranclp_induct) (auto intro: redeemed_step)

text \<open>
  C5. After \<^verbatim>\<open>POST /spin/play\<close> has succeeded on a code \<open>v\<close>, and after any number of
  further requests of any kind, \<^verbatim>\<open>POST /spin/verify\<close> on \<open>v\<close> answers 400 "Code already
  used" and so does \<^verbatim>\<open>POST /spin/play\<close> on \<open>v\<close>, which adds no \<^verbatim>\<open>spin_results\<close> row.
  When store calls fail the two handlers answer 500 (or nothing) instead; they never
  succeed, and the tables stay as they were.
\<close>

theorem redeemed_code_stays_used:
  assumes "play (Some v) random now (request faults st) = (Json result, s1)"
    and "rtranclp step (db s1) st2"
  shows "(\<forall>faults'. True \<notin> set faults' \<longrightarrow>
            fst (verify (Some v) (request faults' st2)) = Failure 400 ''Code already used''
          \<and> fst (play (Some v) random' now' (request faults' st2)) = Failure 400 ''Code already used'')
    \<and> (\<forall>faults'.
            fst (verify (Some v) (request faults' st2))
              \<in> {Failure 400 ''Code already used'', Failure 500 ''Verification failed''}
          \<and> (\<forall>result'. fst (play (Some v) random' now' (request faults' st2)) \<noteq> Json result')
          \<and> committed (db (snd (play (Some v) random' now' (request faults' st2)))) = committed st2)"
proof -
  from redeemed_after_play [OF assms(1)] redeemed_steps [OF assms(2)]
  have red: "redeemed v (committed st2)" and valid: "\<not> invalid_code_format (Some v)"
    by simp_all
  from red obtain row rest where rows:
    "filter (\<lambda>row. sc_code row = v) (spin_codes (committed st2)) = row # rest"
    "sc_status row = ''used''"
    by (auto simp: redeemed_def split: list.splits)
  have a: "fst (verify (Some v) (request faults' st2)) = Failure 400 ''Code already used''
          \<and> fst (play (Some v) random' now' (request faults' st2)) = Failure 400 ''Code already used''"
    if "True \<notin> set faults'" for faults'
    using verify_fault_free [OF that valid, of st2]
      play_fault_free_rejects(2) [OF that valid rows(1), of random' now'] rows
    by simp
  have b: "fst (verify (Some v) (request faults' st2))
              \<in> {Failure 400 ''Code already used'', Failure 500 ''Verification failed''}" for faults'
    using verify_answers [OF valid, of faults' st2] rows by auto
  have c: "fst (play (Some v) random' now' (request faults' st2)) \<noteq> Json result'" for faults' result'
  proof
    assume "fst (play (Some v) random' now' (request faults' st2)) = Json result'"
    then have "play (Some v) random' now' (request faults' st2)
        = (Json result', snd (play (Some v) random' now' (request faults' st2)))"
      by (metis prod.collapse)
    from play_success_mark_used [OF this] rows show False by auto
  qed
  have d: "committed (db (snd (play (Some v) random' now' (request faults' st2)))) = committed st2"
    for faults'
    using play_failure [OF surjective_pairing, of "Some v" random' now' "request faults' st2"] c
    by (simp add: request_def)
  from a b c d show ?thesis by blast
qed


theorem redeemed_code_stays_used_witness:
  "fst (play (Some ''10000'') (1 / 2) 7 (request [] one_code_store))
     = Json \<lparr>sr_id = 1, sr_code_id = 1, sr_outcome = ''$25'', sr_prize_cents = 2500,
             sr_odds = 0.20, sr_created_at = 7\<rparr>
   \<and> fst (verify (Some ''10000'')
         (request [] (db (snd (play (Some ''10000'') (1 / 2) 7 (request [] one_code_store))))))
     = Failure 400 ''Code already used''
   \<and> fst (play (Some ''10000'') (1 / 4) 9
         (request [] (db (snd (play (Some ''10000'') (1 / 2) 7 (request [] one_code_store))))))
     = Failure 400 ''Code already used''"
proof -
  let ?first = "play (Some ''10000'') (1 / 2) 7 (request [] one_code_store)"
  let ?result = "\<lparr>sr_id = 1, sr_code_id = 1, sr_outcome = ''$25'', sr_prize_cents = 2500,
             sr_odds = 0.20, sr_created_at = 7\<rparr>"
  have answer: "fst ?first = Json ?result"
    by (simp add: handler_defs query_defs Let_def)
  then have run: "?first = (Json ?result, snd ?first)"
    by (metis prod.collapse)
  have later: "rtranclp step (db (snd ?first)) (db (snd ?first))" by simp
  from redeemed_code_stays_used [OF run later, of "1 / 4" 9] answer
  show ?thesis by simp
qed

lemma consistent_init: "consistent initializeDatabase"
  by (simp add: consistent_def initializeDatabase_def)

lemma consistent_insert:
  assumes "consistent (db s)" "tx s = None" "query_INSERT_spin_codes c t s = (res, s1)"
  shows "consistent (db s1)"
proof (cases res)
  case (Inl e)
  with INSERT_codes_cases [OF assms(3,2)] assms(1) show ?thesis
    by (fastforce simp: consistent_def Let_def)
next
  case (Inr row)
  with INSERT_codes_cases [OF assms(3,2)]
  have row: "sc_id row = Suc (spin_codes_id_seq (db s))" "sc_code row = c" "sc_status row = ''unused''"
    and new: "c \<notin> set (map sc_code (spin_codes (committed (db s))))"
    and codes: "spin_codes (committed (db s1)) = spin_codes (committed (db s)) @ [row]"
    and results: "spin_results (committed (db s1)) = spin_results (committed (db s))"
    and seq: "spin_codes_id_seq (db s1) = Suc (spin_codes_id_seq (db s))"
    by simp_all
  from assms(1) have fresh: "Suc (spin_codes_id_seq (db s)) \<notin> set (map sc_id (spin_codes (committed (db s))))"
    by (fastforce simp: consistent_def Let_def)
  with assms(1) have unref: "Suc (spin_codes_id_seq (db s)) \<notin> set (map sr_code_id (spin_results (committed (db s))))"
    by (auto simp: consistent_def Let_def)
  from assms(1) row new fresh unref show ?thesis
    unfolding consistent_def Let_def codes results seq
    by (auto simp: le_Suc_eq)
qed

lemma consistent_generate_loop:
  assumes "generate_loop rnd now n i k codes s = Some (res, s')" "tx s = None" "consistent (db s)"
  shows "consistent (db s')"
proof -
  let ?I = "\<lambda>(_ :: spin_code list) s1. tx s1 = None \<and> consistent (db s1)"
  have "\<exists>codes'. ?I codes' s' \<and> (\<forall>cs. res = Inr cs \<longrightarrow> cs = codes' \<and> length cs = length codes + nat (n - i))"
  proof (rule generate_loop_invariant [OF assms(1), where I = ?I], goal_cases)
    case 1
    show ?case using assms(2,3) by simp
  next
    case (2 k codes s0 row s1)
    with consistent_insert [OF _ _ 2(2)] INSERT_codes_cases [OF 2(2)] show ?case by simp
  next
    case (3 k codes s0 e s1)
    with consistent_insert [OF _ _ 3(2)] INSERT_codes_cases [OF 3(2)] show ?case by simp
  qed
  then show ?thesis by blast
qed

lemma consistent_mark_used:
  assumes "consistent st" "row \<in> set (spin_codes (committed st))" "sc_status row \<noteq> ''used''"
    and "spin_codes (committed st') = mark_used (sc_id row) now (spin_codes (committed st))"
    and "spin_results (committed st') = spin_results (committed st) @ [result]"
    and "sr_code_id result = sc_id row"
    and "spin_codes_id_seq st' = spin_codes_id_seq st"
  shows "consistent st'"
proof -
  from assms(1-3) have unref: "sc_id row \<notin> set (map sr_code_id (spin_results (committed st)))"
    by (auto simp: consistent_def Let_def)
  have ids: "sc_id ` set (mark_used (sc_id row) now (spin_codes (committed st)))
      = sc_id ` set (spin_codes (committed st))"
    using map_sc_id_mark_used [of "sc_id row" now "spin_codes (committed st)"]
    by (metis set_map)
  have "\<forall>c\<in>set (mark_used (sc_id row) now (spin_codes (committed st))).
      sc_id c \<le> spin_codes_id_seq st
      \<and> (sc_status c = ''used'') = (sc_id c \<in> set (map sr_code_id (spin_results (committed st) @ [result])))
      \<and> (sc_status c = ''unused'' \<or> sc_status c = ''used'')"
    using assms(1,6) unref by (auto simp: consistent_def Let_def mark_used_def)
  moreover have "sc_id row \<in> sc_id ` set (spin_codes (committed st))" using assms(2) by simp
  ultimately show ?thesis
    using assms(1,6) unref ids
    unfolding consistent_def Let_def assms(4,5,7) map_sc_id_mark_used map_sc_code_mark_used
    by auto
qed

lemma consistent_step:
  assumes "step st st'" "consistent st"
  shows "consistent st'"
  using assms
proof (cases rule: step.cases)
  case (step_generate rnd count now faults answer s')
  from generate_Some [OF step_generate(3)] obtain res where
    "generate_loop rnd now (min (case count of None \<Rightarrow> 1 | Some c \<Rightarrow> c) 100) 0 0 []
       (request faults st) = Some (res, s')" ..
  from consistent_generate_loop [OF this] assms(2) step_generate(1) show ?thesis
    by (simp add: request_def)
next
  case (step_verify code faults answer s')
  from verify_db [OF step_verify(2)] assms(2) step_verify(1) show ?thesis
    by (simp add: request_def)
next
  case (step_play random code t faults answer s')
  show ?thesis
  proof (cases "\<exists>result. answer = Json result")
    case True
    then obtain result where "answer = Json result" ..
    from play_success_mark_used [OF step_play(4) [unfolded this]]
    obtain v row rest where r:
      "filter (\<lambda>row. sc_code row = v) (spin_codes (committed st)) = row # rest"
      "sc_status row \<noteq> ''used''" "sr_code_id result = sc_id row"
      "spin_codes (committed (db s')) = mark_used (sc_id row) t (spin_codes (committed st))"
      "spin_results (committed (db s')) = spin_results (committed st) @ [result]"
      "spin_codes_id_seq (db s') = spin_codes_id_seq st"
      by blast
    from r(1) have "row \<in> set (filter (\<lambda>row. sc_code row = v) (spin_codes (committed st)))"
      by simp
    then have "row \<in> set (spin_codes (committed st))" by simp
    from consistent_mark_used [OF assms(2) this r(2) r(4) [unfolded step_play(1) [symmetric]]
        r(5) [unfolded step_play(1) [symmetric]] r(3) r(6) [unfolded step_play(1) [symmetric]]]
    show ?thesis .
  next
    case False
    with play_failure [OF step_play(4)] play_codes_seq [OF step_play(4)] assms(2) step_play(1)
    show ?thesis by (simp add: request_def consistent_def)
  qed
qed

lemma reachable_consistent: "reachable st \<Longrightarrow> consistent st"
  by (induction rule: reachable.induct) (auto intro: consistent_init consistent_step)


lemma monotone_step:
  assumes "step st st'" "consistent st"
  shows "(\<forall>c\<in>set (spin_codes (committed st)). \<exists>c'\<in>set (spin_codes (committed st')).
            sc_id c' = sc_id c \<and> sc_code c' = sc_code c \<and> (sc_status c = ''used'' \<longrightarrow> c' = c))
       \<and> (\<exists>new. spin_results (committed st') = spin_results (committed st) @ new)"
  using assms
proof (cases rule: step.cases)
  case (step_generate rnd count now faults answer s')
  from generate_Some [OF step_generate(3)] obtain res where
    "generate_loop rnd now (min (case count of None \<Rightarrow> 1 | Some c \<Rightarrow> c) 100) 0 0 []
       (request faults st) = Some (res, s')" ..
  from generate_loop_appends [OF this] step_generate(1) obtain new where
    "spin_codes (committed st') = spin_codes (committed st) @ new"
    "spin_results (committed st') = spin_results (committed st)"
    by (auto simp: request_def)
  then show ?thesis by auto
next
  case (step_verify code faults answer s')
  from verify_db [OF step_verify(2)] step_verify(1) have "st' = st" by (simp add: request_def)
  then show ?thesis by auto
next
  case (step_play random code t faults answer s')
  show ?thesis
  proof (cases "\<exists>result. answer = Json result")
    case True
    then obtain result where "answer = Json result" ..
    from play_success_mark_used [OF step_play(4) [unfolded this]] step_play(1)
    obtain v row rest where r:
      "filter (\<lambda>row. sc_code row = v) (spin_codes (committed st)) = row # rest"
      "sc_status row \<noteq> ''used''"
      "spin_codes (committed st') = mark_used (sc_id row) t (spin_codes (committed st))"
      "spin_results (committed st') = spin_results (committed st) @ [result]"
      by blast
    from r(1) have "row \<in> set (filter (\<lambda>row. sc_code row = v) (spin_codes (committed st)))"
      by simp
    then have row: "row \<in> set (spin_codes (committed st))" by simp
    from assms(2) have d: "distinct (map sc_id (spin_codes (committed st)))"
      by (simp add: consistent_def Let_def)
    have "\<exists>c'\<in>set (spin_codes (committed st')).
            sc_id c' = sc_id c \<and> sc_code c' = sc_code c \<and> (sc_status c = ''used'' \<longrightarrow> c' = c)"
      if c: "c \<in> set (spin_codes (committed st))" for c
    proof (cases "sc_id c = sc_id row")
      case True
      with d c row have "c = row" by (meson distinct_map inj_onD)
      with r(2) have unused: "sc_status c \<noteq> ''used''" by simp
      have "c\<lparr>sc_status := ''used'', sc_used_at := Some t\<rparr> \<in> set (spin_codes (committed st'))"
        using c True unfolding r(3) mark_used_def by force
      with unused show ?thesis by (intro bexI [of _ "c\<lparr>sc_status := ''used'', sc_used_at := Some t\<rparr>"]) simp_all
    next
      case False
      have "c \<in> set (spin_codes (committed st'))"
        using c False unfolding r(3) mark_used_def by force
      then show ?thesis by (intro bexI [of _ c]) simp_all
    qed
    with r(4) show ?thesis by blast
  next
    case False
    with play_failure [OF step_play(4)] step_play(1)
    have "committed st' = committed st" by (simp add: request_def)
    then show ?thesis by auto
  qed
qed

text \<open>
  C4. In every store reachable from the empty tables by any sequence of
  \<^verbatim>\<open>POST /admin/generate\<close>, \<^verbatim>\<open>POST /spin/verify\<close> and \<^verbatim>\<open>POST /spin/play\<close> requests: a
  code row is used exactly when a result row refers to it; every result row refers to
  a code row, which is used; no two result rows refer to the same code; code ids are
  unique; a status is \<^verbatim>\<open>unused\<close> or \<^verbatim>\<open>used\<close>. Across any further request every code row
  is still there with its id and value, a used row is unchanged (so it stays used and
  keeps its \<^verbatim>\<open>used_at\<close>), and result rows are only added.
\<close>

theorem used_iff_outcome_invariant:
  assumes "reachable st"
  shows "(\<forall>c\<in>set (spin_codes (committed st)).
            (sc_status c = ''used'') = (\<exists>r\<in>set (spin_results (committed st)). sr_code_id r = sc_id c))
    \<and> (\<forall>r\<in>set (spin_results (committed st)). \<exists>c\<in>set (spin_codes (committed st)).
            sc_id c = sr_code_id r \<and> sc_status c = ''used'')
    \<and> distinct (map sr_code_id (spin_results (committed st)))
    \<and> distinct (map sc_id (spin_codes (committed st)))
    \<and> (\<forall>c\<in>set (spin_codes (committed st)). sc_status c = ''unused'' \<or> sc_status c = ''used'')
    \<and> (\<forall>st'. step st st' \<longrightarrow>
          (\<forall>c\<in>set (spin_codes (committed st)). \<exists>c'\<in>set (spin_codes (committed st')).
              sc_id c' = sc_id c \<and> sc_code c' = sc_code c \<and> (sc_status c = ''used'' \<longrightarrow> c' = c))
          \<and> (\<exists>new. spin_results (committed st') = spin_results (committed st) @ new))"
proof -
  note c = reachable_consistent [OF assms]
  have 1: "\<forall>c\<in>set (spin_codes (committed st)).
            (sc_status c = ''used'') = (\<exists>r\<in>set (spin_results (committed st)). sr_code_id r = sc_id c)"
    using c by (fastforce simp: consistent_def Let_def image_iff)
  have 2: "\<forall>r\<in>set (spin_results (committed st)). \<exists>c\<in>set (spin_codes (committed st)).
            sc_id c = sr_code_id r \<and> sc_status c = ''used''"
  proof
    fix r assume r: "r \<in> set (spin_results (committed st))"
    with c have "sr_code_id r \<in> set (map sc_id (spin_codes (committed st)))"
      by (auto simp: consistent_def Let_def)
    then obtain c where cc: "c \<in> set (spin_codes (committed st))" "sc_id c = sr_code_id r" by auto
    from r cc(2) have "\<exists>r\<in>set (spin_results (committed st)). sr_code_id r = sc_id c"
      by (intro bexI [of _ r]) simp_all
    with 1 cc(1) have "sc_status c = ''used''" by simp
    with cc show "\<exists>c\<in>set (spin_codes (committed st)). sc_id c = sr_code_id r \<and> sc_status c = ''used''"
      by blast
  qed
  have 3: "distinct (map sr_code_id (spin_results (committed st)))"
    "distinct (map sc_id (spin_codes (committed st)))"
    "\<forall>c\<in>set (spin_codes (committed st)). sc_status c = ''unused'' \<or> sc_status c = ''used''"
    using c unfolding consistent_def Let_def by blast+
  from 1 2 3 monotone_step [OF _ c] show ?thesis by blast
qed

lemma generate_one:
  "generate (Some 1) (\<lambda>_. 0) (\<lambda>_. 0) (request [] initializeDatabase)
     = Some (Json [\<lparr>sc_id = 1, sc_code = ''10000'', sc_status = ''unused'', sc_created_at = 0,
                     sc_used_at = None\<rparr>],
             \<lparr>db = one_code_store, tx = None, pending = [], issued = [INSERT_spin_codes ''10000'']\<rparr>)"
proof -
  have stop: "generate_loop (\<lambda>_. 0) (\<lambda>_. 0) 1 1 k codes s = Some (Inr codes, s)" for k codes s
    by (subst generate_loop.simps) simp
  have "generate_loop (\<lambda>_. 0) (\<lambda>_. 0) 1 0 0 [] (request [] initializeDatabase)
     = Some (Inr [\<lparr>sc_id = 1, sc_code = ''10000'', sc_status = ''unused'', sc_created_at = 0,
                     sc_used_at = None\<rparr>],
             \<lparr>db = one_code_store, tx = None, pending = [], issued = [INSERT_spin_codes ''10000'']\<rparr>)"
    by (subst generate_loop.simps)
      (simp add: generateSpinCode_0 query_defs request_def initializeDatabase_def fault_now_def
        SERIAL_max_def Let_def stop)
  then show ?thesis by (simp add: generate_def)
qed

lemma reachable_one_code_store: "reachable one_code_store"
proof -
  have "step initializeDatabase (db \<lparr>db = one_code_store, tx = None, pending = [],
      issued = [INSERT_spin_codes ''10000'']\<rparr>)"
    by (rule step_generate [OF _ generate_one]) simp
  with reachable_init show ?thesis by (auto intro: reachable_step)
qed

lemma play_one:
  "db (snd (play (Some ''10000'') (1 / 2) 7 (request [] one_code_store))) = used_code_store"
  by (simp add: handler_defs query_defs Let_def)

lemma reachable_used_code_store: "reachable used_code_store"
proof -
  have "step one_code_store (db (snd (play (Some ''10000'') (1 / 2) 7 (request [] one_code_store))))"
    by (rule step_play [OF _ _ surjective_pairing]) simp_all
  with reachable_one_code_store show ?thesis unfolding play_one by (rule reachable_step)
qed

theorem used_iff_outcome_invariant_witness:
  "reachable used_code_store
   \<and> (sc_status (spin_codes (committed used_code_store) ! 0) = ''used'')
       = (\<exists>r\<in>set (spin_results (committed used_code_store)).
            sr_code_id r = sc_id (spin_codes (committed used_code_store) ! 0))
   \<and> distinct (map sr_code_id (spin_results (committed used_code_store)))"
  using used_iff_outcome_invariant [OF reachable_used_code_store] reachable_used_code_store
  by simp

section \<open>Generated codes\<close>

lemma digit_char_is_digit: "is_digit (digit_char d)"
  unfolding is_digit_def digit_char_def by (rule nth_mem) simp

lemma digit_char_nonzero: "0 < d \<Longrightarrow> d < 10 \<Longrightarrow> digit_char d \<noteq> CHR ''0''"
proof -
  assume "0 < d" "d < 10"
  then have "d \<in> {1, 2, 3, 4, 5, 6, 7, 8, 9}" by auto
  then show ?thesis by (auto simp: digit_char_def)
qed

lemma digits_five:
  assumes "10000 \<le> n" "n \<le> 99999"
  shows "digits n = [digit_char (n div 10000), digit_char (n div 1000), digit_char (n div 100),
                     digit_char (n div 10), digit_char n]"
proof -
  have d: "n div 10 div 10 = n div 100" "n div 100 div 10 = n div 1000" "n div 1000 div 10 = n div 10000"
    by (simp_all add: div_mult2_eq [symmetric])
  have "\<not> n < 10" "\<not> n div 10 < 10" "\<not> n div 100 < 10" "\<not> n div 1000 < 10" "n div 10000 < 10"
    using assms by auto
  then show ?thesis
    by (simp add: digits.simps [of n] digits.simps [of "n div 10"] digits.simps [of "n div 100"]
        digits.simps [of "n div 1000"] digits.simps [of "n div 10000"] d digit_char_def)
qed

lemma generateSpinCode_range:
  fixes r :: real
  assumes "0 \<le> r" "r < 1"
  shows "10000 \<le> \<lfloor>10000 + r * 90000\<rfloor>" "\<lfloor>10000 + r * 90000\<rfloor> \<le> 99999"
proof -
  show "10000 \<le> \<lfloor>10000 + r * 90000\<rfloor>" using assms by (simp add: le_floor_iff)
  have "10000 + r * 90000 < 100000" using assms by simp
  then have "\<lfloor>10000 + r * 90000\<rfloor> < 100000" by (simp add: floor_less_iff)
  then show "\<lfloor>10000 + r * 90000\<rfloor> \<le> 99999" by simp
qed

lemma generateSpinCode_shape:
  assumes "0 \<le> r" "r < 1"
  shows "length (generateSpinCode r) = 5" "list_all is_digit (generateSpinCode r)"
    "hd (generateSpinCode r) \<noteq> CHR ''0''"
proof -
  let ?n = "nat \<lfloor>10000 + r * 90000\<rfloor>"
  from generateSpinCode_range [OF assms] have n: "10000 \<le> ?n" "?n \<le> 99999" by linarith+
  from generateSpinCode_range(1) [OF assms] have "\<not> \<lfloor>10000 + r * 90000\<rfloor> < 0" by linarith
  then have g: "generateSpinCode r = digits ?n"
    by (simp only: generateSpinCode_def toString_def if_False)
  from n have "0 < ?n div 10000" "?n div 10000 < 10" by simp_all
  then have "digit_char (?n div 10000) \<noteq> CHR ''0''" by (rule digit_char_nonzero)
  then show "length (generateSpinCode r) = 5" "list_all is_digit (generateSpinCode r)"
    "hd (generateSpinCode r) \<noteq> CHR ''0''"
    unfolding g digits_five [OF n] by (simp_all add: digit_char_is_digit)
qed

lemma no_leading_zero_step:
  assumes "step st st'" "\<forall>c\<in>set (spin_codes (committed st)). hd (sc_code c) \<noteq> CHR ''0''"
  shows "\<forall>c\<in>set (spin_codes (committed st')). hd (sc_code c) \<noteq> CHR ''0''"
  using assms
proof (cases rule: step.cases)
  case (step_generate rnd count now faults answer s')
  from generate_Some [OF step_generate(3)] obtain res where
    "generate_loop rnd now (min (case count of None \<Rightarrow> 1 | Some c \<Rightarrow> c) 100) 0 0 []
       (request faults st) = Some (res, s')" ..
  from generate_loop_appends [OF this] step_generate(1) obtain new where new:
    "spin_codes (committed st') = spin_codes (committed st) @ new"
    "\<forall>row\<in>set new. \<exists>k. sc_code row = generateSpinCode (rnd k)"
    by (auto simp: request_def)
  have "hd (sc_code row) \<noteq> CHR ''0''" if "row \<in> set new" for row
  proof -
    from new(2) that obtain k where "sc_code row = generateSpinCode (rnd k)" by blast
    with generateSpinCode_shape(3) [of "rnd k"] step_generate(2) show ?thesis by simp
  qed
  with assms(2) show ?thesis unfolding new(1) by auto
next
  case (step_verify code faults answer s')
  from verify_db [OF step_verify(2)] step_verify(1) have "st' = st" by (simp add: request_def)
  with assms(2) show ?thesis by simp
next
  case (step_play random code t faults answer s')
  show ?thesis
  proof (cases "\<exists>result. answer = Json result")
    case True
    then obtain result where "answer = Json result" ..
    from play_success_mark_used [OF step_play(4) [unfolded this]] step_play(1)
    obtain v row rest where
      "filter (\<lambda>row. sc_code row = v) (spin_codes (committed st)) = row # rest"
      "spin_codes (committed st') = mark_used (sc_id row) t (spin_codes (committed st))"
      by blast
    then have "set (map sc_code (spin_codes (committed st'))) = set (map sc_code (spin_codes (committed st)))"
      by (simp only: map_sc_code_mark_used)
    with assms(2) show ?thesis by (metis (no_types, lifting) image_iff set_map)
  next
    case False
    with play_failure [OF step_play(4)] step_play(1)
    have "committed st' = committed st" by (simp add: request_def)
    with assms(2) show ?thesis by simp
  qed
qed

lemma reachable_no_leading_zero:
  "reachable st \<Longrightarrow> \<forall>c\<in>set (spin_codes (committed st)). hd (sc_code c) \<noteq> CHR ''0''"
proof (induction rule: reachable.induct)
  case reachable_init
  show ?case by (simp add: initializeDatabase_def)
next
  case (reachable_step st st')
  from no_leading_zero_step [OF reachable_step(2) reachable_step(3)] show ?case .
qed

text \<open>
  C10. For every value of \<^verbatim>\<open>Math.random()\<close> in \<open>[0, 1)\<close> the generator returns the
  decimal digits of a whole number from 10000 to 99999, so a generated code does not
  begin with \<^verbatim>\<open>0\<close>. Hence in every reachable store no code begins with \<^verbatim>\<open>0\<close>, and
  for a well-formed value with a leading zero \<^verbatim>\<open>POST /spin/verify\<close> and
  \<^verbatim>\<open>POST /spin/play\<close> answer 404 "Code not found" when their store calls go through,
  and never succeed whatever store calls fail.
\<close>

theorem generated_codes_have_no_leading_zero:
  "(0 \<le> r \<and> r < 1 \<longrightarrow>
      (\<exists>n. 10000 \<le> n \<and> n \<le> 99999 \<and> generateSpinCode r = toString n)
      \<and> hd (generateSpinCode r) \<noteq> CHR ''0'')
   \<and> (reachable st \<and> \<not> invalid_code_format (Some v) \<and> hd v = CHR ''0'' \<longrightarrow>
        (\<forall>faults.
           fst (verify (Some v) (request faults st))
             \<in> {Failure 404 ''Code not found'', Failure 500 ''Verification failed''}
           \<and> (\<forall>result. fst (play (Some v) random now (request faults st)) \<noteq> Json result)
           \<and> (True \<notin> set faults \<longrightarrow>
                fst (verify (Some v) (request faults st)) = Failure 404 ''Code not found''
                \<and> fst (play (Some v) random now (request faults st)) = Failure 404 ''Code not found'')))"
proof (intro conjI impI allI)
  assume r: "0 \<le> r \<and> r < 1"
  then have "10000 \<le> \<lfloor>10000 + r * 90000\<rfloor>" "\<lfloor>10000 + r * 90000\<rfloor> \<le> 99999"
    by (simp_all add: generateSpinCode_range)
  then show "\<exists>n. 10000 \<le> n \<and> n \<le> 99999 \<and> generateSpinCode r = toString n"
    unfolding generateSpinCode_def by blast
  from r show "hd (generateSpinCode r) \<noteq> CHR ''0''" by (simp add: generateSpinCode_shape)
next
  fix faults
  assume a: "reachable st \<and> \<not> invalid_code_format (Some v) \<and> hd v = CHR ''0''"
  then have valid: "\<not> invalid_code_format (Some v)" by simp
  from a reachable_no_leading_zero [of st]
  have none: "filter (\<lambda>row. sc_code row = v) (spin_codes (committed st)) = []"
    by (auto simp: filter_empty_conv)
  from verify_answers [OF valid, of faults st] none
  show "fst (verify (Some v) (request faults st))
      \<in> {Failure 404 ''Code not found'', Failure 500 ''Verification failed''}"
    by auto
  show "fst (play (Some v) random now (request faults st)) \<noteq> Json result" for result
  proof
    assume "fst (play (Some v) random now (request faults st)) = Json result"
    then have "play (Some v) random now (request faults st)
        = (Json result, snd (play (Some v) random now (request faults st)))"
      by (metis prod.collapse)
    from play_success_mark_used [OF this] none show False by auto
  qed
  assume f: "True \<notin> set faults"
  from verify_fault_free [OF f valid, of st] none
  show "fst (verify (Some v) (request faults st)) = Failure 404 ''Code not found''" by simp
  from play_fault_free_rejects(1) [OF f valid none]
  show "fst (play (Some v) random now (request faults st)) = Failure 404 ''Code not found''" by simp
qed

theorem generated_codes_have_no_leading_zero_witness:
  "(0 :: real) \<le> 1 / 2 \<and> (1 / 2 :: real) < 1
   \<and> (\<exists>n. 10000 \<le> n \<and> n \<le> 99999 \<and> generateSpinCode (1 / 2) = toString n)
   \<and> reachable one_code_store \<and> \<not> invalid_code_format (Some ''01234'') \<and> hd ''01234'' = CHR ''0''
   \<and> fst (verify (Some ''01234'') (request [] one_code_store)) = Failure 404 ''Code not found''
   \<and> fst (play (Some ''01234'') 0 3 (request [] one_code_store)) = Failure 404 ''Code not found''"
proof -
  have valid: "\<not> invalid_code_format (Some ''01234'')"
    by (simp add: invalid_code_format_def test_5_digits_def is_digit_def)
  from generated_codes_have_no_leading_zero [of "1 / 2" one_code_store "''01234''" 0 3]
    reachable_one_code_store valid
  show ?thesis by force
qed

section \<open>The generation loop returns\<close>

text \<open>
  Every code from 10000 to 99999 is what the generator returns for some draw in
  \<open>[0, 1)\<close>: the sequences of candidates \<open>\<lambda>k. generateSpinCode (rnd k)\<close> are all the
  sequences of such codes.
\<close>

lemma generateSpinCode_onto:
  assumes "10000 \<le> n" "n \<le> 99999"
  shows "\<exists>r. 0 \<le> r \<and> r < 1 \<and> generateSpinCode r = toString n"
proof -
  let ?r = "(real_of_int n - 10000) / 90000"
  have "10000 + ?r * 90000 = real_of_int n" by (simp add: field_simps)
  then have "generateSpinCode ?r = toString n"
    unfolding generateSpinCode_def by (simp only: floor_of_int)
  moreover have "0 \<le> ?r" "?r < 1" using assms by simp_all
  ultimately show ?thesis by blast
qed





end
